theory Spec2Isabelle
  imports Main "HOL-Library.Word"
begin

unbundle bit_operations_syntax

section \<open>Byte strings and the prefix codec\<close>

text \<open>
  A \<^verbatim>\<open>rocksdb::Slice\<close>, a \<^verbatim>\<open>std::string\<close> and a \<^verbatim>\<open>StringData\<close> are sequences of
  bytes. A namespace prefix is a \<^verbatim>\<open>uint32_t\<close>.
\<close>

type_synonym byte = "8 word"
type_synonym bytes = "byte list"
type_synonym uint32 = "32 word"

definition bytes_of :: "string \<Rightarrow> bytes" where
  "bytes_of s = map of_char s"

text \<open>\<^verbatim>\<open>Slice::starts_with\<close>.\<close>

definition starts_with :: "bytes \<Rightarrow> bytes \<Rightarrow> bool" where
  "starts_with k p = (take (length p) k = p)"

text \<open>
  \<^verbatim>\<open>endian::bigToNative(*reinterpret_cast<const uint32_t*>(slice.data()))\<close>: the first
  four bytes, the first one most significant.
\<close>

definition bigToNative :: "byte \<Rightarrow> byte \<Rightarrow> byte \<Rightarrow> byte \<Rightarrow> uint32" where
  "bigToNative b0 b1 b2 b3 =
     push_bit 24 (ucast b0) OR push_bit 16 (ucast b1) OR push_bit 8 (ucast b2) OR ucast b3"

text \<open>
  \<^verbatim>\<open>extractPrefix\<close> returns false on a slice shorter than four bytes and leaves the
  output untouched; otherwise it stores the decoded prefix and returns true. The model
  returns \<open>None\<close> for false and \<open>Some prefix\<close> for true.
\<close>

fun extractPrefix :: "bytes \<Rightarrow> uint32 option" where
  "extractPrefix (b0 # b1 # b2 # b3 # rest) = Some (bigToNative b0 b1 b2 b3)"
| "extractPrefix _ = None"

text \<open>\<^verbatim>\<open>encodePrefix\<close>: the four bytes of the prefix, most significant first.\<close>

definition encodePrefix :: "uint32 \<Rightarrow> bytes" where
  "encodePrefix prefix =
     [ucast (drop_bit 24 prefix), ucast (drop_bit 16 prefix), ucast (drop_bit 8 prefix),
      ucast prefix]"

section \<open>The compaction filter\<close>

text \<open>
  \<^verbatim>\<open>PrefixDeletingCompactionFilter\<close> owns a copy of the dropped prefixes and two mutable
  cache fields. \<^verbatim>\<open>Filter\<close> is const in C++ but writes the mutable cache, so the model
  returns the answer together with the filter after the call.
\<close>

record PrefixDeletingCompactionFilter =
  f_droppedPrefixes :: "uint32 set"
  f_prefixCache :: uint32
  f_droppedCache :: bool

definition newFilter :: "uint32 set \<Rightarrow> PrefixDeletingCompactionFilter" where
  "newFilter droppedPrefixes =
     \<lparr>f_droppedPrefixes = droppedPrefixes, f_prefixCache = 0, f_droppedCache = False\<rparr>"

definition Filter :: "PrefixDeletingCompactionFilter \<Rightarrow> bytes \<Rightarrow> bool \<times> PrefixDeletingCompactionFilter" where
  "Filter f key =
     (case extractPrefix key of
        None \<Rightarrow> (False, f)
      | Some prefix \<Rightarrow>
          if prefix = f_prefixCache f then (f_droppedCache f, f)
          else
            let d = (prefix \<in> f_droppedPrefixes f)
            in (d, f\<lparr>f_prefixCache := prefix, f_droppedCache := d\<rparr>))"

text \<open>
  One filter instance is handed the keys of a compaction one after the other
  (``filter is not called from multiple threads simultaneously''); \<open>Filter_run\<close> collects
  the answers in order.
\<close>

fun Filter_run :: "PrefixDeletingCompactionFilter \<Rightarrow> bytes list \<Rightarrow> bool list" where
  "Filter_run f [] = []"
| "Filter_run f (key # keys) = (case Filter f key of (d, f') \<Rightarrow> d # Filter_run f' keys)"

text \<open>What the snapshot alone says about a key: drop it iff it has a prefix in the snapshot.\<close>

definition prefix_dropped :: "uint32 set \<Rightarrow> bytes \<Rightarrow> bool" where
  "prefix_dropped S key = (case extractPrefix key of None \<Rightarrow> False | Some prefix \<Rightarrow> prefix \<in> S)"

section \<open>Statuses and failures\<close>

text \<open>
  A \<^verbatim>\<open>rocksdb::Status\<close> is ok or carries a code; a mongo \<^verbatim>\<open>Status\<close> is OK or carries an
  error code. A call can also leave without returning: \<^verbatim>\<open>invariant\<close> and
  \<^verbatim>\<open>quickExit\<close> end the process, \<^verbatim>\<open>assert\<close> aborts it, and an exception leaves the
  function. These are the values of \<open>failure\<close>, and a function that can fail that way
  returns \<open>failure + 'a\<close>.
\<close>

datatype rocksdb_Code = kNotFound | kCorruption | kNotSupported | kInvalidArgument | kIOError

datatype rocksdb_Status = RocksOK | RocksNotOK rocksdb_Code

definition ok :: "rocksdb_Status \<Rightarrow> bool" where
  "ok s = (s = RocksOK)"

datatype ErrorCodes =
  BadValue | NoSuchKey | ShutdownInProgress | InternalError | StoreFailure rocksdb_Code

datatype Status = StatusOK | StatusError ErrorCodes

datatype failure =
  InvariantFailure | QuickExit | AssertAbort | DBException | UserException ErrorCodes
  | OtherException

text \<open>
  Modelled from the spec: \<^verbatim>\<open>rocksToMongoStatus\<close> is declared in \<^verbatim>\<open>rocks_util.h\<close>, which is
  not among the sources. The spec says that ``underlying store write failures are
  translated and returned to the caller''. An ok store status becomes \<^verbatim>\<open>Status::OK()\<close>; a
  failure becomes an error status, whose code is kept symbolic as \<open>StoreFailure\<close> of the
  store's code.
\<close>

definition rocksToMongoStatus :: "rocksdb_Status \<Rightarrow> Status" where
  "rocksToMongoStatus s = (case s of RocksOK \<Rightarrow> StatusOK | RocksNotOK c \<Rightarrow> StatusError (StoreFailure c))"

section \<open>Config records\<close>

text \<open>
  A \<^verbatim>\<open>BSONObj\<close> is a sequence of named elements. The engine only asks an element whether
  it is the end-of-object element (a missing field), whether it is a number, and for
  \<^verbatim>\<open>numberInt()\<close>. \<open>Number n\<close> stands for a numeric element whose \<^verbatim>\<open>numberInt()\<close> is
  \<open>n\<close> (the casts between \<^verbatim>\<open>int32_t\<close> and \<^verbatim>\<open>uint32_t\<close> keep the bits); \<open>NonNumber\<close>
  is any other element.
\<close>

datatype BSONElement = EOO | Number uint32 | NonNumber bytes

type_synonym BSONObj = "(string \<times> BSONElement) list"

definition getField :: "BSONObj \<Rightarrow> string \<Rightarrow> BSONElement" where
  "getField obj name = (case map_of obj name of None \<Rightarrow> EOO | Some e \<Rightarrow> e)"

definition eoo :: "BSONElement \<Rightarrow> bool" where
  "eoo e = (e = EOO)"

definition isNumber :: "BSONElement \<Rightarrow> bool" where
  "isNumber e = (case e of Number n \<Rightarrow> True | _ \<Rightarrow> False)"

definition numberInt :: "BSONElement \<Rightarrow> uint32" where
  "numberInt e = (case e of Number n \<Rightarrow> n | _ \<Rightarrow> 0)"

text \<open>\<^verbatim>\<open>BSONObjBuilder::append\<close> adds a field at the end.\<close>

definition append :: "string \<Rightarrow> BSONElement \<Rightarrow> BSONObj \<Rightarrow> BSONObj" where
  "append name e builder = builder @ [(name, e)]"

section \<open>The ordered key-value store\<close>

text \<open>
  The store is outside the repository; the model keeps what the engine can observe of it.
  A stored value is the bytes of a BSON document (\<open>BsonData\<close>) or other bytes
  (\<open>RawData\<close>). The keys of the default column family are held in the order of the
  bytewise comparator. Every write call is appended to \<open>wlog\<close> with its sync flag, its
  batch and the status the store returned. Whether a write fails is the store's choice:
  \<open>answers\<close> lists the statuses the store gives to the next write calls, and once the
  list is used up every call succeeds. A failed write changes no key; a batch is applied
  as a whole.
\<close>

datatype dbval = BsonData BSONObj | RawData bytes

datatype batch_op = BatchPut bytes dbval | BatchDelete bytes

type_synonym kvs = "(bytes \<times> dbval) list"

record rocks_db =
  created :: bool
  columnFamilies :: "bytes list"
  kv :: kvs
  wlog :: "(bool \<times> batch_op list \<times> rocksdb_Status) list"
  answers :: "rocksdb_Status list"

fun key_less :: "bytes \<Rightarrow> bytes \<Rightarrow> bool" where
  "key_less [] [] = False"
| "key_less [] (y # ys) = True"
| "key_less (x # xs) [] = False"
| "key_less (x # xs) (y # ys) = (x < y \<or> (x = y \<and> key_less xs ys))"

fun kv_put :: "bytes \<Rightarrow> dbval \<Rightarrow> kvs \<Rightarrow> kvs" where
  "kv_put k v [] = [(k, v)]"
| "kv_put k v ((k', v') # rest) =
     (if k = k' then (k, v) # rest
      else if key_less k k' then (k, v) # (k', v') # rest
      else (k', v') # kv_put k v rest)"

definition kv_delete :: "bytes \<Rightarrow> kvs \<Rightarrow> kvs" where
  "kv_delete k kvl = filter (\<lambda>(k', v). k' \<noteq> k) kvl"

fun apply_op :: "batch_op \<Rightarrow> kvs \<Rightarrow> kvs" where
  "apply_op (BatchPut k v) kvl = kv_put k v kvl"
| "apply_op (BatchDelete k) kvl = kv_delete k kvl"

definition apply_batch :: "batch_op list \<Rightarrow> kvs \<Rightarrow> kvs" where
  "apply_batch wb kvl = foldl (\<lambda>acc op. apply_op op acc) kvl wb"

definition next_answer :: "rocks_db \<Rightarrow> rocksdb_Status" where
  "next_answer D = (case answers D of [] \<Rightarrow> RocksOK | a # rest \<Rightarrow> a)"

text \<open>\<^verbatim>\<open>DB::Write(options, &batch)\<close>, with \<open>sync\<close> the value of \<^verbatim>\<open>options.sync\<close>.\<close>

definition db_Write :: "bool \<Rightarrow> batch_op list \<Rightarrow> rocks_db \<Rightarrow> rocksdb_Status \<times> rocks_db" where
  "db_Write sync wb D =
     (let s = next_answer D
      in (s, D\<lparr>kv := (if ok s then apply_batch wb (kv D) else kv D),
               wlog := wlog D @ [(sync, wb, s)],
               answers := tl (answers D)\<rparr>))"

text \<open>\<^verbatim>\<open>DB::Put(WriteOptions(), key, value)\<close>: a one-entry batch, not synced.\<close>

definition db_Put :: "bytes \<Rightarrow> dbval \<Rightarrow> rocks_db \<Rightarrow> rocksdb_Status \<times> rocks_db" where
  "db_Put k v D = db_Write False [BatchPut k v] D"

text \<open>\<^verbatim>\<open>DB::Get\<close>: ok iff the key is present.\<close>

definition db_Get :: "bytes \<Rightarrow> rocks_db \<Rightarrow> rocksdb_Status" where
  "db_Get k D = (case map_of (kv D) k of None \<Rightarrow> RocksNotOK kNotFound | Some v \<Rightarrow> RocksOK)"

section \<open>The engine\<close>

text \<open>
  The members of \<^verbatim>\<open>RocksEngine\<close> that the operations below read or write.
  \<open>compactionRequests\<close> are the prefixes handed to
  \<^verbatim>\<open>RocksCompactionScheduler::compactDroppedPrefix\<close>, in order; the scheduler runs them
  later on its own thread. \<open>journalFlusher\<close> says whether the flusher thread was created
  and started.
\<close>

record RocksEngine =
  durable :: bool
  identMap :: "bytes \<rightharpoonup> BSONObj"
  maxPrefix :: uint32
  droppedPrefixes :: "uint32 set"
  oplogIdent :: bytes
  rdb :: rocks_db
  compactionRequests :: "bytes list"
  journalFlusher :: bool

text \<open>\<^verbatim>\<open>"\0\0\0\0metadata-"\<close> cut to 12 bytes, and \<^verbatim>\<open>"\0\0\0\0droppedprefix-"\<close> with 18.\<close>

definition kMetadataPrefix :: bytes where
  "kMetadataPrefix = take 12 ([0, 0, 0, 0] @ bytes_of ''metadata-'')"

definition kDroppedPrefix :: bytes where
  "kDroppedPrefix = take 18 ([0, 0, 0, 0] @ bytes_of ''droppedprefix-'')"

definition kOplogCF :: bytes where
  "kOplogCF = bytes_of ''oplogCF''"

text \<open>
  \<^verbatim>\<open>RocksEngine::_getIdentConfig\<close>: \<^verbatim>\<open>invariant\<close> ends the process when the ident is not
  in the map; otherwise a copy of the stored record is returned.
\<close>

definition getIdentConfig :: "RocksEngine \<Rightarrow> bytes \<Rightarrow> failure + BSONObj" where
  "getIdentConfig E ident =
     (case identMap E ident of None \<Rightarrow> Inl InvariantFailure | Some config \<Rightarrow> Inr config)"

text \<open>\<^verbatim>\<open>RocksEngine::_extractPrefix\<close>.\<close>

definition extractPrefix_config :: "BSONObj \<Rightarrow> bytes" where
  "extractPrefix_config config = encodePrefix (numberInt (getField config ''prefix''))"

text \<open>\<^verbatim>\<open>RocksEngine::getDroppedPrefixes\<close> copies the set.\<close>

definition getDroppedPrefixes :: "RocksEngine \<Rightarrow> uint32 set" where
  "getDroppedPrefixes E = droppedPrefixes E"

text \<open>
  \<^verbatim>\<open>PrefixDeletingCompactionFilterFactory::CreateCompactionFilter\<close>: \<open>None\<close> is the null
  pointer.
\<close>

definition CreateCompactionFilter :: "RocksEngine \<Rightarrow> PrefixDeletingCompactionFilter option" where
  "CreateCompactionFilter E =
     (let droppedPrefixes = getDroppedPrefixes E
      in if card droppedPrefixes = 0 then None else Some (newFilter droppedPrefixes))"

text \<open>
  What a compaction does with the factory's answer: without a filter the store keeps every
  key; with one it asks \<^verbatim>\<open>Filter\<close> key by key. \<open>True\<close> means the key is dropped.
\<close>

definition compaction_drops :: "PrefixDeletingCompactionFilter option \<Rightarrow> bytes list \<Rightarrow> bool list" where
  "compaction_drops fo keys =
     (case fo of None \<Rightarrow> map (\<lambda>key. False) keys | Some f \<Rightarrow> Filter_run f keys)"

text \<open>
  \<^verbatim>\<open>RocksEngine::_createIdent\<close>. \<open>configBuilder\<close> holds the fields appended before the
  call.
\<close>

definition createIdent :: "bytes \<Rightarrow> BSONObj \<Rightarrow> RocksEngine \<Rightarrow> Status \<times> RocksEngine" where
  "createIdent ident configBuilder E =
     (if identMap E ident \<noteq> None then (StatusOK, E)
      else
        let prefix = maxPrefix E + 1;
            config = append ''prefix'' (Number prefix) configBuilder;
            E1 = E\<lparr>maxPrefix := prefix, identMap := (identMap E)(ident \<mapsto> config)\<rparr>;
            (s, D1) = db_Put (kMetadataPrefix @ ident) (BsonData config) (rdb E1);
            (s', D2) = (if ok s then db_Put (encodePrefix prefix) (RawData []) D1 else (s, D1))
        in (rocksToMongoStatus s', E1\<lparr>rdb := D2\<rparr>))"

text \<open>\<^verbatim>\<open>RocksEngine::createOplogStore\<close>.\<close>

definition createOplogStore :: "bytes \<Rightarrow> RocksEngine \<Rightarrow> Status \<times> RocksEngine" where
  "createOplogStore ident E =
     (if identMap E ident \<noteq> None then (StatusOK, E)
      else
        let prefix = maxPrefix E + 1;
            config = append ''prefix'' (Number prefix) [];
            E1 = E\<lparr>maxPrefix := prefix, identMap := (identMap E)(ident \<mapsto> config)\<rparr>;
            (s, D1) = db_Put (kMetadataPrefix @ ident) (BsonData config) (rdb E1);
            (s', D2) = (if ok s then db_Put (encodePrefix prefix) (RawData []) D1 else (s, D1));
            E2 = E1\<lparr>oplogIdent := ident\<rparr>;
            oplogTrackerPrefix = maxPrefix E2 + 1;
            E3 = E2\<lparr>maxPrefix := oplogTrackerPrefix\<rparr>;
            (s'', D3) = db_Put (encodePrefix oplogTrackerPrefix) (RawData []) D2
        in (rocksToMongoStatus s'', E3\<lparr>rdb := D3\<rparr>))"

text \<open>\<^verbatim>\<open>NamespaceString::oplog\<close> (mongo): the namespace starts with \<^verbatim>\<open>local.oplog.\<close>\<close>

definition NamespaceString_oplog :: "bytes \<Rightarrow> bool" where
  "NamespaceString_oplog ns = starts_with ns (bytes_of ''local.oplog.'')"

definition createRecordStore :: "bytes \<Rightarrow> bytes \<Rightarrow> RocksEngine \<Rightarrow> Status \<times> RocksEngine" where
  "createRecordStore ns ident E =
     (if NamespaceString_oplog ns then createOplogStore ident E else createIdent ident [] E)"

text \<open>
  \<^verbatim>\<open>RocksEngine::createSortedDataInterface\<close>. \<^verbatim>\<open>RocksIndexBase::generateConfig\<close> is not
  among the sources; \<open>indexConfig\<close> is what it leaves in the builder.
\<close>

definition createSortedDataInterface :: "bytes \<Rightarrow> BSONObj \<Rightarrow> RocksEngine \<Rightarrow> Status \<times> RocksEngine" where
  "createSortedDataInterface ident indexConfig E = createIdent ident indexConfig E"

text \<open>
  Modelled from the spec: \<^verbatim>\<open>rocksGetNextPrefix\<close> is declared in \<^verbatim>\<open>rocks_util.h\<close>, which is
  not among the sources. The spec describes ``an extra prefix reserved immediately after an
  oplog-like table's own prefix'', and the comment at the call says the tracker's keys
  ``are stored at prefix+1''. So the next prefix of an encoded prefix is the encoding of
  that prefix plus one; a string too short to hold a prefix is returned as it is.
\<close>

definition rocksGetNextPrefix :: "bytes \<Rightarrow> bytes" where
  "rocksGetNextPrefix prefix =
     (case extractPrefix prefix of None \<Rightarrow> prefix | Some p \<Rightarrow> encodePrefix (p + 1))"

text \<open>
  The loop of \<^verbatim>\<open>dropIdent\<close> that inserts the prefixes to drop into \<^verbatim>\<open>_droppedPrefixes\<close>,
  with its \<^verbatim>\<open>invariant(ok)\<close>.
\<close>

fun insertDropped :: "bytes list \<Rightarrow> uint32 set \<Rightarrow> failure + uint32 set" where
  "insertDropped [] dp = Inr dp"
| "insertDropped (prefix # rest) dp =
     (case extractPrefix prefix of
        None \<Rightarrow> Inl InvariantFailure
      | Some int_prefix \<Rightarrow> insertDropped rest (insert int_prefix dp))"

text \<open>
  \<^verbatim>\<open>RocksEngine::dropIdent\<close>. The batch is built first, written with
  \<^verbatim>\<open>syncOptions.sync = true\<close>, and the function returns the translated status when the
  write fails. Scheduling a compaction can fail; the source only logs that.
\<close>

definition dropIdent :: "bytes \<Rightarrow> RocksEngine \<Rightarrow> failure + Status \<times> RocksEngine" where
  "dropIdent ident E =
     (let wb0 = [BatchDelete (kMetadataPrefix @ ident)]
      in case getIdentConfig E ident of
           Inl f \<Rightarrow> Inl f
         | Inr config \<Rightarrow>
             let p0 = extractPrefix_config config;
                 prefixesToDrop =
                   (if oplogIdent E = ident then [p0, rocksGetNextPrefix p0] else [p0]);
                 wb = wb0 @ map (\<lambda>prefix. BatchPut (kDroppedPrefix @ prefix) (RawData []))
                                prefixesToDrop;
                 (s, D1) = db_Write True wb (rdb E)
             in if \<not> ok s then Inr (rocksToMongoStatus s, E\<lparr>rdb := D1\<rparr>)
                else
                  let E1 = E\<lparr>rdb := D1, identMap := (identMap E)(ident := None)\<rparr>
                  in case insertDropped prefixesToDrop (droppedPrefixes E1) of
                       Inl f \<Rightarrow> Inl f
                     | Inr dp \<Rightarrow>
                         Inr (StatusOK,
                              E1\<lparr>droppedPrefixes := dp,
                                 compactionRequests := compactionRequests E1 @ prefixesToDrop\<rparr>))"

section \<open>Startup recovery\<close>

text \<open>
  The constructor reads the store through one iterator. \<^verbatim>\<open>Seek(target)\<close> moves to the
  first key not below the target, and each \<^verbatim>\<open>for\<close> loop runs while the key starts with
  the namespace's prefix. The iterator's own status is taken to be ok.
\<close>

definition Seek :: "bytes \<Rightarrow> kvs \<Rightarrow> kvs" where
  "Seek target kvl = dropWhile (\<lambda>(k, v). key_less k target) kvl"

definition scan :: "bytes \<Rightarrow> kvs \<Rightarrow> kvs" where
  "scan p kvl = takeWhile (\<lambda>(k, v). starts_with k p) (Seek p kvl)"

text \<open>\<^verbatim>\<open>SeekToLast\<close> and the first \<^verbatim>\<open>extractPrefix\<close>, starting from the counter \<open>mx\<close>.\<close>

definition findMaxPrefix :: "kvs \<Rightarrow> uint32 \<Rightarrow> failure + uint32" where
  "findMaxPrefix kvl mx =
     (if kvl = [] then Inr mx
      else case extractPrefix (fst (last kvl)) of
             None \<Rightarrow> Inl InvariantFailure
           | Some p \<Rightarrow> Inr p)"

text \<open>
  The loop over the metadata keys. A value that is no BSON document makes the
  \<^verbatim>\<open>BSONObj\<close> constructor throw (``this could throw DBException, which then means DB
  corruption. We just let it fly to the caller'').
\<close>

fun loadIdentMap :: "kvs \<Rightarrow> (bytes \<rightharpoonup> BSONObj) \<times> uint32 \<Rightarrow> failure + (bytes \<rightharpoonup> BSONObj) \<times> uint32" where
  "loadIdentMap [] (m, mx) = Inr (m, mx)"
| "loadIdentMap ((k, v) # rest) (m, mx) =
     (let ident = drop (length kMetadataPrefix) k
      in case v of
           RawData b \<Rightarrow> Inl DBException
         | BsonData identConfig \<Rightarrow>
             let element = getField identConfig ''prefix''
             in if eoo element \<or> \<not> isNumber element then Inl InvariantFailure
                else
                  let identPrefix = numberInt element
                  in loadIdentMap rest (m(ident \<mapsto> identConfig), max mx identPrefix))"

text \<open>The loop over the drop-markers; each one found is handed to the scheduler again.\<close>

fun loadDroppedPrefixes :: "kvs \<Rightarrow> uint32 set \<times> bytes list \<Rightarrow> failure + uint32 set \<times> bytes list" where
  "loadDroppedPrefixes [] (dp, reqs) = Inr (dp, reqs)"
| "loadDroppedPrefixes ((k, v) # rest) (dp, reqs) =
     (let prefix = drop (length kDroppedPrefix) k
      in case extractPrefix prefix of
           None \<Rightarrow> Inl InvariantFailure
         | Some int_prefix \<Rightarrow> loadDroppedPrefixes rest (insert int_prefix dp, reqs @ [prefix]))"

text \<open>
  The constructor from \<^verbatim>\<open>// open iterator\<close> on: \<^verbatim>\<open>_maxPrefix\<close> starts at 0, the ident map
  and the dropped set start empty, and the flusher is created and started only under
  \<^verbatim>\<open>if (_durable)\<close>.
\<close>

definition RocksEngine_recover :: "bool \<Rightarrow> rocks_db \<Rightarrow> failure + RocksEngine" where
  "RocksEngine_recover durable_flag D =
     (case findMaxPrefix (kv D) 0 of
        Inl f \<Rightarrow> Inl f
      | Inr mx0 \<Rightarrow>
          (case loadIdentMap (scan kMetadataPrefix (kv D)) (Map.empty, mx0) of
             Inl f \<Rightarrow> Inl f
           | Inr (m, mx1) \<Rightarrow>
               (case loadDroppedPrefixes (scan kDroppedPrefix (kv D)) ({}, []) of
                  Inl f \<Rightarrow> Inl f
                | Inr (dp, reqs) \<Rightarrow>
                    Inr \<lparr>durable = durable_flag, identMap = m, maxPrefix = mx1 + 1,
                         droppedPrefixes = dp, oplogIdent = [], rdb = D,
                         compactionRequests = reqs, journalFlusher = durable_flag\<rparr>)))"

section \<open>Opening the store\<close>

text \<open>
  What \<^verbatim>\<open>openDB\<close> needs of the store: whether it exists on disk, which column families
  it has, and whether the reopen tag is among its keys. A read-write \<^verbatim>\<open>DB::Open\<close> with
  \<^verbatim>\<open>create_if_missing\<close> creates a missing store with the default family, and succeeds iff
  the families asked for are exactly the families of the store. \<^verbatim>\<open>DB::OpenForReadOnly\<close>
  creates nothing, and succeeds iff the store exists and has the families asked for, the
  default one among them. \<^verbatim>\<open>CreateColumnFamily\<close> fails on a family that is already there;
  otherwise its status is the store's next answer.
\<close>

definition kDefaultColumnFamilyName :: bytes where
  "kDefaultColumnFamilyName = bytes_of ''default''"

definition ReopenTagKey :: bytes where
  "ReopenTagKey = take 13 ([0, 0, 0, 0] @ bytes_of ''ReopenTag'')"

definition DB_Open :: "bytes list \<Rightarrow> rocks_db \<Rightarrow> rocksdb_Status \<times> rocks_db" where
  "DB_Open descriptors D =
     (let D1 = (if created D then D
                else D\<lparr>created := True, columnFamilies := [kDefaultColumnFamilyName]\<rparr>)
      in (if set descriptors = set (columnFamilies D1) then RocksOK
          else RocksNotOK kInvalidArgument, D1))"

definition DB_OpenForReadOnly :: "bytes list \<Rightarrow> rocks_db \<Rightarrow> rocksdb_Status \<times> rocks_db" where
  "DB_OpenForReadOnly descriptors D =
     (if created D \<and> kDefaultColumnFamilyName \<in> set descriptors
         \<and> set descriptors \<subseteq> set (columnFamilies D)
      then RocksOK else RocksNotOK kInvalidArgument, D)"

definition db_CreateColumnFamily :: "bytes \<Rightarrow> rocks_db \<Rightarrow> rocksdb_Status \<times> rocks_db" where
  "db_CreateColumnFamily name D =
     (let s = (if name \<in> set (columnFamilies D) then RocksNotOK kInvalidArgument
               else next_answer D)
      in (s, D\<lparr>columnFamilies := (if ok s then columnFamilies D @ [name] else columnFamilies D),
               answers := tl (answers D)\<rparr>))"

text \<open>
  \<^verbatim>\<open>RocksEngine::openDB\<close> calls itself after creating the oplog column family, and nothing
  in its text bounds the depth, so the model counts the calls: \<open>openDB fuel\<close> is \<open>None\<close>
  when more than \<open>fuel\<close> nested calls are needed. \<open>ndebug\<close> says whether the C
  \<^verbatim>\<open>assert\<close> is compiled out. A \<^verbatim>\<open>Put\<close> through a read-only handle is refused and changes
  nothing; the source ignores the status of the \<^verbatim>\<open>Put\<close> of the tag.
\<close>

fun openDB :: "nat \<Rightarrow> bool \<Rightarrow> bool \<Rightarrow> bool \<Rightarrow> bytes list \<Rightarrow> rocks_db
    \<Rightarrow> (failure + rocksdb_Status \<times> rocks_db) option" where
  "openDB 0 ndebug useSeparateOplogCF readOnly descriptors D = None"
| "openDB (Suc fuel) ndebug useSeparateOplogCF readOnly descriptors D =
     (let (s, D1) = (if readOnly then DB_OpenForReadOnly descriptors D
                     else DB_Open descriptors D)
      in if \<not> ok s then
           (if useSeparateOplogCF then
              (let (s2, D2) = (if readOnly then DB_OpenForReadOnly [kDefaultColumnFamilyName] D1
                               else DB_Open [kDefaultColumnFamilyName] D1)
               in if \<not> ok s2 then Some (Inl QuickExit)
                  else if ok (db_Get ReopenTagKey D2) then Some (Inl QuickExit)
                  else
                    (let (s4, D3) = db_CreateColumnFamily kOplogCF D2
                     in if \<not> ok s4 \<and> \<not> ndebug then Some (Inl AssertAbort)
                        else openDB fuel ndebug useSeparateOplogCF readOnly descriptors D3))
            else Some (Inl QuickExit))
         else
           (let D2 = (if readOnly then D1 else snd (db_Put ReopenTagKey (RawData []) D1))
            in Some (Inr (s, D2))))"

text \<open>The descriptors the constructor passes to \<^verbatim>\<open>openDB\<close>.\<close>

definition cfDescriptors :: "bool \<Rightarrow> bytes list" where
  "cfDescriptors useSeparateOplogCF =
     kDefaultColumnFamilyName # (if useSeparateOplogCF then [kOplogCF] else [])"

text \<open>A store that was never opened.\<close>

definition fresh_store :: rocks_db where
  "fresh_store = \<lparr>created = False, columnFamilies = [], kv = [], wlog = [], answers = []\<rparr>"

section \<open>The ticket parameter\<close>

text \<open>
  \<^verbatim>\<open>TicketHolder\<close> belongs to the server; \<^verbatim>\<open>_set\<close> only calls its \<^verbatim>\<open>resize\<close>, which is a
  parameter here. \<^verbatim>\<open>newNum\<close> is a C \<^verbatim>\<open>int\<close>, read as a signed 32-bit value.
\<close>

record TicketHolder =
  outof :: int
  used :: int

definition RocksTicketServerParameter_set ::
    "(uint32 \<Rightarrow> TicketHolder \<Rightarrow> Status \<times> TicketHolder) \<Rightarrow> uint32 \<Rightarrow> TicketHolder
     \<Rightarrow> Status \<times> TicketHolder" where
  "RocksTicketServerParameter_set resize newNum holder =
     (if sint newNum \<le> 0 then (StatusError BadValue, holder) else resize newNum holder)"

text \<open>A \<^verbatim>\<open>resize\<close> that always succeeds and sets the total, as a sample holder.\<close>

definition resize_total :: "uint32 \<Rightarrow> TicketHolder \<Rightarrow> Status \<times> TicketHolder" where
  "resize_total newSize holder = (StatusOK, holder\<lparr>outof := sint newSize\<rparr>)"

section \<open>The journal flusher\<close>

text \<open>
  \<^verbatim>\<open>RocksJournalFlusher::run\<close> runs on its own thread while \<^verbatim>\<open>shutdown\<close> is called from
  another, so the model is a machine stepped by a schedule of actions. \<open>Go\<close> starts the
  thread. \<open>LoopTest\<close> is the test of the \<^verbatim>\<open>while\<close>. \<open>LoopBody r ms\<close> is one run of the
  body, where \<open>r\<close> is what \<^verbatim>\<open>waitUntilDurable(false)\<close> does and \<open>ms\<close> the value loaded from
  \<^verbatim>\<open>journalCommitIntervalMs\<close>. \<open>ShutdownStore\<close> is the store to \<^verbatim>\<open>_shuttingDown\<close> in
  \<^verbatim>\<open>shutdown\<close>, and \<open>ShutdownWait\<close> the return of \<^verbatim>\<open>BackgroundJob::wait\<close>, which blocks
  until \<^verbatim>\<open>run\<close> has returned. An action that is not enabled leaves the machine as it is.
  \<open>events\<close> records the calls of the body in order.
\<close>

datatype durable_result = Durable | ThrowsUserException ErrorCodes | ThrowsOther

datatype flusher_event = WaitUntilDurable | Sleep int

datatype thread_state = NotStarted | LoopHead | InBody | Exited | Died failure

datatype shutdown_state = NotCalled | Waiting | Returned

record RocksJournalFlusher =
  shuttingDown :: bool
  thread :: thread_state
  events :: "flusher_event list"
  shutdown_call :: shutdown_state

definition newFlusher :: RocksJournalFlusher where
  "newFlusher = \<lparr>shuttingDown = False, thread = NotStarted, events = [], shutdown_call = NotCalled\<rparr>"

datatype action = Go | LoopTest | LoopBody durable_result int | ShutdownStore | ShutdownWait

fun step :: "action \<Rightarrow> RocksJournalFlusher \<Rightarrow> RocksJournalFlusher" where
  "step Go F = (if thread F = NotStarted then F\<lparr>thread := LoopHead\<rparr> else F)"
| "step LoopTest F =
     (if thread F = LoopHead
      then (if shuttingDown F then F\<lparr>thread := Exited\<rparr> else F\<lparr>thread := InBody\<rparr>)
      else F)"
| "step (LoopBody r journalCommitIntervalMs) F =
     (if thread F = InBody then
        let F1 = F\<lparr>events := events F @ [WaitUntilDurable]\<rparr>;
            ms = (if journalCommitIntervalMs = 0 then 100 else journalCommitIntervalMs);
            F2 = F1\<lparr>events := events F1 @ [Sleep ms], thread := LoopHead\<rparr>
        in case r of
             Durable \<Rightarrow> F2
           | ThrowsUserException c \<Rightarrow>
               if c = ShutdownInProgress then F2 else F1\<lparr>thread := Died InvariantFailure\<rparr>
           | ThrowsOther \<Rightarrow> F1\<lparr>thread := Died OtherException\<rparr>
      else F)"
| "step ShutdownStore F =
     (if shutdown_call F = NotCalled then F\<lparr>shuttingDown := True, shutdown_call := Waiting\<rparr>
      else F)"
| "step ShutdownWait F =
     (if shutdown_call F = Waiting \<and> thread F = Exited then F\<lparr>shutdown_call := Returned\<rparr>
      else F)"

definition run_schedule :: "action list \<Rightarrow> RocksJournalFlusher \<Rightarrow> RocksJournalFlusher" where
  "run_schedule as F = foldl (\<lambda>F a. step a F) F as"

section \<open>Sequences of creates and sample states\<close>




text \<open>
  The store that holds only the metadata record of the ident \<^verbatim>\<open>coll1\<close> with prefix 5, and
  the engine that recovery builds from it.
\<close>

definition coll1_store :: rocks_db where
  "coll1_store =
     \<lparr>created = True, columnFamilies = [kDefaultColumnFamilyName],
      kv = [(kMetadataPrefix @ bytes_of ''coll1'', BsonData [(''prefix'', Number 5)])],
      wlog = [], answers = []\<rparr>"

definition coll1_engine :: RocksEngine where
  "coll1_engine =
     \<lparr>durable = True, identMap = [bytes_of ''coll1'' \<mapsto> [(''prefix'', Number 5)]],
      maxPrefix = 6, droppedPrefixes = {}, oplogIdent = [], rdb = coll1_store,
      compactionRequests = [], journalFlusher = True\<rparr>"

text \<open>
  A store that holds only the drop-marker of prefix 5, and the engine that recovery builds
  from the store that was never opened.
\<close>

definition marker_store :: rocks_db where
  "marker_store = coll1_store\<lparr>kv := [(kDroppedPrefix @ encodePrefix 5, RawData [])]\<rparr>"

definition fresh_engine :: RocksEngine where
  "fresh_engine =
     \<lparr>durable = False, identMap = Map.empty, maxPrefix = 1, droppedPrefixes = {},
      oplogIdent = [], rdb = fresh_store, compactionRequests = [], journalFlusher = False\<rparr>"



section \<open>The prefix codec\<close>

lemma bigToNative_encode:
  "bigToNative (ucast (drop_bit 24 p)) (ucast (drop_bit 16 p)) (ucast (drop_bit 8 p)) (ucast p)
     = (p::uint32)"
proof (rule bit_word_eqI)
  fix n :: nat
  assume n: "n < LENGTH(32)"
  consider "n < 8" | "8 \<le> n" "n < 16" | "16 \<le> n" "n < 24" | "24 \<le> n"
    by linarith
  then show "bit (bigToNative (ucast (drop_bit 24 p)) (ucast (drop_bit 16 p))
                 (ucast (drop_bit 8 p)) (ucast p)) n = bit p n"
    using n by cases (auto simp add: bigToNative_def bit_simps)
qed

lemma extractPrefix_encodePrefix_append: "extractPrefix (encodePrefix p @ rest) = Some p"
  by (simp add: encodePrefix_def bigToNative_encode)

lemma extractPrefix_encodePrefix: "extractPrefix (encodePrefix p) = Some p"
  using extractPrefix_encodePrefix_append [of p "[]"] by simp

lemma extractPrefix_None_iff: "extractPrefix key = None \<longleftrightarrow> length key < 4"
  by (cases key rule: extractPrefix.cases) simp_all

lemma extractPrefix_Some_nth:
  "4 \<le> length key \<Longrightarrow>
   extractPrefix key = Some (bigToNative (key ! 0) (key ! 1) (key ! 2) (key ! 3))"
  by (cases key rule: extractPrefix.cases) simp_all

section \<open>The compaction filter and its factory\<close>

lemma prefix_dropped_iff:
  "prefix_dropped S key \<longleftrightarrow>
     4 \<le> length key \<and> bigToNative (key ! 0) (key ! 1) (key ! 2) (key ! 3) \<in> S"
proof (cases "4 \<le> length key")
  case True
  then show ?thesis by (simp add: prefix_dropped_def extractPrefix_Some_nth)
next
  case False
  then have "extractPrefix key = None" by (simp add: extractPrefix_None_iff)
  with False show ?thesis by (simp add: prefix_dropped_def)
qed

text \<open>
  Once the cached answer agrees with the snapshot, every answer of the filter is the
  snapshot's answer: each call either reuses the cache or refills it from the snapshot.
\<close>

lemma Filter_run_consistent:
  "f_droppedCache f = (f_prefixCache f \<in> f_droppedPrefixes f) \<Longrightarrow>
   Filter_run f keys = map (prefix_dropped (f_droppedPrefixes f)) keys"
proof (induction keys arbitrary: f)
  case Nil
  show ?case by simp
next
  case (Cons key keys)
  show ?case
  proof (cases "extractPrefix key")
    case None
    with Cons show ?thesis by (simp add: Filter_def prefix_dropped_def)
  next
    case (Some p)
    show ?thesis
    proof (cases "p = f_prefixCache f")
      case True
      with Some Cons show ?thesis by (simp add: Filter_def prefix_dropped_def)
    next
      case False
      let ?f' = "f\<lparr>f_prefixCache := p, f_droppedCache := (p \<in> f_droppedPrefixes f)\<rparr>"
      have "Filter_run ?f' keys = map (prefix_dropped (f_droppedPrefixes ?f')) keys"
        by (rule Cons.IH) simp
      with False Some show ?thesis by (simp add: Filter_def prefix_dropped_def Let_def)
    qed
  qed
qed

text \<open>
  What a new filter answers for any snapshot: the keys that come before the first key with
  a prefix other than 0 are kept, whatever the snapshot says about prefix 0, and from that
  key on every answer is the snapshot's.
\<close>

lemma Filter_run_from_new:
  "f_prefixCache f = 0 \<Longrightarrow> \<not> f_droppedCache f \<Longrightarrow>
   Filter_run f keys =
     map (\<lambda>key. False) (takeWhile (\<lambda>key. extractPrefix key \<in> {None, Some 0}) keys)
     @ map (prefix_dropped (f_droppedPrefixes f))
         (dropWhile (\<lambda>key. extractPrefix key \<in> {None, Some 0}) keys)"
proof (induction keys)
  case Nil
  show ?case by simp
next
  case (Cons key keys)
  show ?case
  proof (cases "extractPrefix key \<in> {None, Some 0}")
    case True
    with Cons show ?thesis by (auto simp add: Filter_def)
  next
    case False
    then obtain p where p: "extractPrefix key = Some p" "p \<noteq> 0" by auto
    let ?f' = "f\<lparr>f_prefixCache := p, f_droppedCache := (p \<in> f_droppedPrefixes f)\<rparr>"
    have "Filter_run ?f' keys = map (prefix_dropped (f_droppedPrefixes ?f')) keys"
      by (rule Filter_run_consistent) simp
    with p Cons.prems show ?thesis
      by (simp add: Filter_def Let_def prefix_dropped_def)
  qed
qed

lemma Filter_run_newFilter:
  "Filter_run (newFilter S) keys =
     map (\<lambda>key. False) (takeWhile (\<lambda>key. extractPrefix key \<in> {None, Some 0}) keys)
     @ map (prefix_dropped S) (dropWhile (\<lambda>key. extractPrefix key \<in> {None, Some 0}) keys)"
  using Filter_run_from_new [of "newFilter S" keys] by (simp add: newFilter_def)


lemma Filter_run_keeps_all: "Filter_run (newFilter {}) keys = map (\<lambda>key. False) keys"
proof -
  have "Filter_run (newFilter {}) keys
          = map (prefix_dropped (f_droppedPrefixes (newFilter {}))) keys"
    by (rule Filter_run_consistent) (simp add: newFilter_def)
  then show ?thesis by (simp add: newFilter_def prefix_dropped_def split: option.splits)
qed

text \<open>
  Claim C2, as stated, fails: a new filter caches prefix 0 as not dropped, so with a
  snapshot that contains 0 a first key with prefix 0 is kept although its prefix is in the
  snapshot.
\<close>

theorem Filter_prefix0_counterexample:
  "4 \<le> length [0, 0, 0, 0 :: byte]
   \<and> bigToNative 0 0 0 0 \<in> {0 :: uint32}
   \<and> Filter_run (newFilter {0}) [ [0, 0, 0, 0] ] = [False]"
  by (simp add: newFilter_def Filter_def bigToNative_def)

text \<open>
  Claim C2 (amended): for every sequence of keys presented to one filter instance created
  from a snapshot \<open>S\<close> that does not contain the reserved prefix 0, a key shorter than 4
  bytes is left untouched, and a key of at least 4 bytes is dropped if and only if its
  leading 4 bytes, read big-endian, are a member of \<open>S\<close>.
\<close>

theorem Filter_run_snapshot:
  "0 \<notin> S \<Longrightarrow>
   Filter_run (newFilter S) keys =
     map (\<lambda>key. 4 \<le> length key \<and> bigToNative (key ! 0) (key ! 1) (key ! 2) (key ! 3) \<in> S) keys"
proof -
  assume "0 \<notin> S"
  then have "f_droppedCache (newFilter S)
               = (f_prefixCache (newFilter S) \<in> f_droppedPrefixes (newFilter S))"
    by (simp add: newFilter_def)
  then have "Filter_run (newFilter S) keys
               = map (prefix_dropped (f_droppedPrefixes (newFilter S))) keys"
    by (rule Filter_run_consistent)
  then show ?thesis by (simp add: newFilter_def prefix_dropped_iff)
qed

text \<open>
  The scenario of claim C2: keys with the prefixes 3, 3, 3, 7, 7 and the snapshot \<open>{3}\<close>;
  the three keys of prefix 3 are dropped and the two of prefix 7 are kept.
\<close>

theorem Filter_run_snapshot_witness:
  "(0::uint32) \<notin> {3} \<and>
   Filter_run (newFilter {3})
     [encodePrefix 3 @ [1], encodePrefix 3 @ [2], encodePrefix 3 @ [3],
      encodePrefix 7 @ [1], encodePrefix 7 @ [2]] = [True, True, True, False, False]"
  using Filter_run_snapshot [of "{3}" "[encodePrefix 3 @ [1], encodePrefix 3 @ [2],
      encodePrefix 3 @ [3], encodePrefix 7 @ [1], encodePrefix 7 @ [2]]"]
  by (simp add: encodePrefix_def bigToNative_def)

text \<open>The same scenario with any key bodies after the prefix.\<close>

lemma Filter_run_scenario:
  "Filter_run (newFilter {3})
     [encodePrefix 3 @ a, encodePrefix 3 @ b, encodePrefix 3 @ c,
      encodePrefix 7 @ d, encodePrefix 7 @ e] = [True, True, True, False, False]"
  by (simp add: Filter_def newFilter_def extractPrefix_encodePrefix_append)

text \<open>
  Claim C10: when the engine's dropped-prefix set is empty, the factory returns the null
  pointer, and the compaction then keeps every key, which is what a filter built from the
  empty snapshot would answer; when the set is not empty the factory builds a filter from
  the snapshot, so a filter object exists only for a non-empty snapshot.
\<close>

theorem CreateCompactionFilter_empty_set:
  "(droppedPrefixes E = {} \<longrightarrow>
      CreateCompactionFilter E = None
      \<and> compaction_drops (CreateCompactionFilter E) keys = map (\<lambda>key. False) keys
      \<and> compaction_drops (CreateCompactionFilter E) keys
          = Filter_run (newFilter (getDroppedPrefixes E)) keys)
   \<and> (droppedPrefixes E \<noteq> {} \<longrightarrow>
        CreateCompactionFilter E = Some (newFilter (droppedPrefixes E)))"
  by (simp add: CreateCompactionFilter_def getDroppedPrefixes_def compaction_drops_def
      Filter_run_keeps_all Let_def)

theorem CreateCompactionFilter_empty_set_witness:
  "droppedPrefixes coll1_engine = {}
   \<and> CreateCompactionFilter coll1_engine = None
   \<and> compaction_drops (CreateCompactionFilter coll1_engine) [encodePrefix 5 @ [1], [7]]
       = [False, False]
   \<and> droppedPrefixes (coll1_engine\<lparr>droppedPrefixes := {3}\<rparr>) \<noteq> {}
   \<and> CreateCompactionFilter (coll1_engine\<lparr>droppedPrefixes := {3}\<rparr>) = Some (newFilter {3})"
proof -
  have h1: "droppedPrefixes coll1_engine = {}"
    by (simp add: coll1_engine_def)
  have h2: "droppedPrefixes (coll1_engine\<lparr>droppedPrefixes := {3}\<rparr>) \<noteq> {}"
    by simp
  show ?thesis
    using h1 h2 CreateCompactionFilter_empty_set [of coll1_engine "[encodePrefix 5 @ [1], [7]]"]
      CreateCompactionFilter_empty_set [of "coll1_engine\<lparr>droppedPrefixes := {3}\<rparr>" "[]"]
    by (simp add: compaction_drops_def)
qed

section \<open>The ticket parameter\<close>

text \<open>
  Claim C9: resizing with a value that is zero or negative fails with the invalid-value
  error (the code's \<^verbatim>\<open>ErrorCodes::BadValue\<close>) and leaves the holder, and so its total,
  unchanged; a positive value is forwarded to the holder's \<^verbatim>\<open>resize\<close>.
\<close>

theorem ticket_set_nonpositive:
  "(sint newNum \<le> 0 \<longrightarrow>
      RocksTicketServerParameter_set resize newNum holder = (StatusError BadValue, holder)
      \<and> outof (snd (RocksTicketServerParameter_set resize newNum holder)) = outof holder)
   \<and> (0 < sint newNum \<longrightarrow>
        RocksTicketServerParameter_set resize newNum holder = resize newNum holder)"
  by (simp add: RocksTicketServerParameter_set_def)

theorem ticket_set_nonpositive_witness:
  "sint (0 :: uint32) \<le> 0
   \<and> RocksTicketServerParameter_set resize_total 0
        \<lparr>outof = 128, used = 0\<rparr> = (StatusError BadValue, \<lparr>outof = 128, used = 0\<rparr>)
   \<and> sint (- 1 :: uint32) \<le> 0
   \<and> RocksTicketServerParameter_set resize_total (- 1)
        \<lparr>outof = 128, used = 0\<rparr> = (StatusError BadValue, \<lparr>outof = 128, used = 0\<rparr>)
   \<and> 0 < sint (5 :: uint32)
   \<and> RocksTicketServerParameter_set resize_total 5
        \<lparr>outof = 128, used = 0\<rparr> = (StatusOK, \<lparr>outof = 5, used = 0\<rparr>)"
  using ticket_set_nonpositive [of 0 resize_total
      "\<lparr>outof = 128, used = 0\<rparr>"]
    ticket_set_nonpositive [of "- 1" resize_total
      "\<lparr>outof = 128, used = 0\<rparr>"]
    ticket_set_nonpositive [of 5 resize_total
      "\<lparr>outof = 128, used = 0\<rparr>"]
  by (simp add: resize_total_def)

section \<open>Lookup and create\<close>




text \<open>
  Claim C4: creating an ident that is already registered returns success and leaves the
  whole engine as it was: no prefix is allocated, the counter is not incremented, nothing
  is written to the store and the entry of the ident map is unchanged. This holds for
  \<^verbatim>\<open>_createIdent\<close>, for \<^verbatim>\<open>createOplogStore\<close> and for the two public operations built on
  them.
\<close>

theorem create_existing_idempotent:
  "identMap E ident = Some config \<Longrightarrow>
     createIdent ident configBuilder E = (StatusOK, E)
     \<and> createOplogStore ident E = (StatusOK, E)
     \<and> createRecordStore ns ident E = (StatusOK, E)
     \<and> createSortedDataInterface ident indexConfig E = (StatusOK, E)"
  by (simp add: createIdent_def createOplogStore_def createRecordStore_def
      createSortedDataInterface_def)

theorem create_existing_idempotent_witness:
  "identMap coll1_engine (bytes_of ''coll1'') = Some [(''prefix'', Number 5)]
   \<and> createIdent (bytes_of ''coll1'') [] coll1_engine = (StatusOK, coll1_engine)
   \<and> createOplogStore (bytes_of ''coll1'') coll1_engine = (StatusOK, coll1_engine)
   \<and> createRecordStore (bytes_of ''test.coll1'') (bytes_of ''coll1'') coll1_engine
       = (StatusOK, coll1_engine)
   \<and> createSortedDataInterface (bytes_of ''coll1'') [] coll1_engine = (StatusOK, coll1_engine)"
proof -
  have h: "identMap coll1_engine (bytes_of ''coll1'') = Some [(''prefix'', Number 5)]"
    by (simp add: coll1_engine_def)
  show ?thesis
    using h create_existing_idempotent [OF h, of "[]" "bytes_of ''test.coll1''" "[]"]
    by simp
qed

section \<open>Dropping an ident\<close>

lemma rocksGetNextPrefix_encodePrefix:
  "rocksGetNextPrefix (encodePrefix p) = encodePrefix (p + 1)"
  by (simp add: rocksGetNextPrefix_def extractPrefix_encodePrefix)

lemma rocksToMongoStatus_OK_iff: "rocksToMongoStatus s = StatusOK \<longleftrightarrow> s = RocksOK"
  by (cases s) (simp_all add: rocksToMongoStatus_def)

text \<open>
  Claim C1: for every registered ident, \<^verbatim>\<open>dropIdent\<close> returns (it does not hit an
  invariant) and issues exactly one write to the store: a synced batch that holds the
  deletion of the metadata key and one drop-marker for each prefix being retired, the
  ident's own prefix and also the next one when the ident is the oplog ident. When that
  write succeeds the result is OK, the batch is applied, the ident is removed from the
  ident map, the prefixes are in the dropped-prefix set and their compactions are
  requested. When the write fails the translated error is returned, and the store's keys,
  the ident map, the dropped-prefix set and the compaction requests are unchanged.
\<close>

theorem dropIdent_marks_before_drop:
  assumes "identMap E ident = Some config"
  shows "let p = numberInt (getField config ''prefix'');
             prefixes = (if oplogIdent E = ident then [p, p + 1] else [p]);
             wb = BatchDelete (kMetadataPrefix @ ident)
                    # map (\<lambda>q. BatchPut (kDroppedPrefix @ encodePrefix q) (RawData [])) prefixes;
             s = next_answer (rdb E)
         in case dropIdent ident E of
              Inl f \<Rightarrow> False
            | Inr (st, E') \<Rightarrow>
                st = rocksToMongoStatus s
                \<and> wlog (rdb E') = wlog (rdb E) @ [(True, wb, s)]
                \<and> (if s = RocksOK
                    then st = StatusOK
                       \<and> kv (rdb E') = apply_batch wb (kv (rdb E))
                       \<and> identMap E' = (identMap E)(ident := None)
                       \<and> droppedPrefixes E' = droppedPrefixes E \<union> set prefixes
                       \<and> compactionRequests E' = compactionRequests E @ map encodePrefix prefixes
                    else st \<noteq> StatusOK
                       \<and> kv (rdb E') = kv (rdb E)
                       \<and> identMap E' = identMap E
                       \<and> droppedPrefixes E' = droppedPrefixes E
                       \<and> compactionRequests E' = compactionRequests E)"
proof -
  have cfg: "getIdentConfig E ident = Inr config"
    using assms by (simp add: getIdentConfig_def)
  show ?thesis
  proof (cases "next_answer (rdb E) = RocksOK")
    case True
    then show ?thesis
      by (cases "oplogIdent E = ident")
        (simp_all add: dropIdent_def cfg Let_def db_Write_def ok_def rocksToMongoStatus_def
          extractPrefix_config_def rocksGetNextPrefix_encodePrefix extractPrefix_encodePrefix
          insert_commute)
  next
    case False
    then show ?thesis
      by (cases "oplogIdent E = ident")
        (simp_all add: dropIdent_def cfg Let_def db_Write_def ok_def rocksToMongoStatus_OK_iff
          extractPrefix_config_def rocksGetNextPrefix_encodePrefix)
  qed
qed

text \<open>
  Two runs on the engine that holds \<^verbatim>\<open>coll1\<close> with prefix 5: one where the store accepts
  the batch, and one where it answers with an I/O error.
\<close>

theorem dropIdent_marks_before_drop_witness:
  "identMap coll1_engine (bytes_of ''coll1'') = Some [(''prefix'', Number 5)]
   \<and> (case dropIdent (bytes_of ''coll1'') coll1_engine of
        Inl f \<Rightarrow> False
      | Inr (st, E') \<Rightarrow>
          st = StatusOK
          \<and> wlog (rdb E') =
              [(True, [BatchDelete (kMetadataPrefix @ bytes_of ''coll1''),
                       BatchPut (kDroppedPrefix @ encodePrefix 5) (RawData [])], RocksOK)]
          \<and> identMap E' = Map.empty
          \<and> droppedPrefixes E' = {5}
          \<and> compactionRequests E' = [encodePrefix 5])
   \<and> (case dropIdent (bytes_of ''coll1'')
              (coll1_engine\<lparr>rdb := coll1_store\<lparr>answers := [RocksNotOK kIOError]\<rparr>\<rparr>) of
        Inl f \<Rightarrow> False
      | Inr (st, E') \<Rightarrow>
          st = StatusError (StoreFailure kIOError)
          \<and> kv (rdb E') = kv coll1_store
          \<and> identMap E' = [bytes_of ''coll1'' \<mapsto> [(''prefix'', Number 5)]]
          \<and> droppedPrefixes E' = {}
          \<and> compactionRequests E' = [])"
proof -
  let ?F = "coll1_engine\<lparr>rdb := coll1_store\<lparr>answers := [RocksNotOK kIOError]\<rparr>\<rparr>"
  have h: "identMap coll1_engine (bytes_of ''coll1'') = Some [(''prefix'', Number 5)]"
    by (simp add: coll1_engine_def)
  have h': "identMap ?F (bytes_of ''coll1'') = Some [(''prefix'', Number 5)]"
    by (simp add: coll1_engine_def)
  have a: "next_answer (rdb coll1_engine) = RocksOK"
      "next_answer (coll1_store\<lparr>answers := [RocksNotOK kIOError]\<rparr>) = RocksNotOK kIOError"
    by (simp_all add: coll1_engine_def coll1_store_def next_answer_def)
  have o: "oplogIdent coll1_engine \<noteq> bytes_of ''coll1''"
    by (simp add: coll1_engine_def bytes_of_def)
  have e: "identMap coll1_engine = [bytes_of ''coll1'' \<mapsto> [(''prefix'', Number 5)]]"
      "wlog (rdb coll1_engine) = []" "droppedPrefixes coll1_engine = {}"
      "compactionRequests coll1_engine = []"
    by (simp_all add: coll1_engine_def coll1_store_def)
  show ?thesis
    using h dropIdent_marks_before_drop [OF h] dropIdent_marks_before_drop [OF h']
    by (simp add: a o e Let_def getField_def numberInt_def rocksToMongoStatus_def
        split: sum.splits prod.splits)
qed

section \<open>Startup recovery\<close>

text \<open>
  The bytewise order is a strict order, and in a store sorted by it the keys that start with
  a given prefix lie together, beginning at the first key not below the prefix. So each
  loop of the constructor visits exactly the keys of its namespace.
\<close>

lemma key_less_irrefl: "\<not> key_less k k"
  by (induction k) simp_all

lemma key_less_trans: "key_less a b \<Longrightarrow> key_less b c \<Longrightarrow> key_less a c"
proof (induction a b arbitrary: c rule: key_less.induct)
  case (1)
  then show ?case by simp
next
  case (2 y ys)
  then show ?case by (cases c) simp_all
next
  case (3 x xs)
  then show ?case by simp
next
  case (4 x xs y ys)
  then show ?case by (cases c) auto
qed

lemma starts_with_not_less: "starts_with k p \<Longrightarrow> \<not> key_less k p"
proof (induction k p rule: key_less.induct)
  case (2 y ys)
  then show ?case by (simp add: starts_with_def)
next
  case (4 x xs y ys)
  then show ?case by (auto simp add: starts_with_def)
qed simp_all

lemma past_prefix:
  "\<not> key_less k1 p \<Longrightarrow> \<not> starts_with k1 p \<Longrightarrow> key_less k1 k2 \<Longrightarrow> \<not> starts_with k2 p"
proof (induction k1 p arbitrary: k2 rule: key_less.induct)
  case 1
  then show ?case by (simp add: starts_with_def)
next
  case (2 y ys)
  then show ?case by simp
next
  case (3 x xs)
  then show ?case by (simp add: starts_with_def)
next
  case (4 x xs y ys)
  show ?case
  proof (cases k2)
    case Nil
    with 4 show ?thesis by simp
  next
    case (Cons z zs)
    with 4 show ?thesis by (auto simp add: starts_with_def)
  qed
qed

lemma scan_eq_filter:
  "sorted_wrt key_less (map fst kvl) \<Longrightarrow>
   scan p kvl = filter (\<lambda>(k, v). starts_with k p) kvl"
proof (induction kvl)
  case Nil
  show ?case by (simp add: scan_def Seek_def)
next
  case (Cons e rest)
  obtain k v where e: "e = (k, v)" by (cases e)
  from Cons.prems have sorted_rest: "sorted_wrt key_less (map fst rest)"
    and above: "\<forall>k' \<in> set (map fst rest). key_less k k'"
    by (simp_all add: e)
  have IH: "scan p rest = filter (\<lambda>(k, v). starts_with k p) rest"
    using Cons.IH sorted_rest by simp
  show ?case
  proof (cases "key_less k p")
    case True
    then have "\<not> starts_with k p" using starts_with_not_less by blast
    with True IH show ?thesis by (simp add: e scan_def Seek_def)
  next
    case False
    have no_less: "\<forall>e' \<in> set rest. \<not> (case e' of (k', v') \<Rightarrow> key_less k' p)"
    proof
      fix e' assume "e' \<in> set rest"
      then have "key_less k (fst e')" using above by simp
      with False have "\<not> key_less (fst e') p" using key_less_trans by blast
      then show "\<not> (case e' of (k', v') \<Rightarrow> key_less k' p)" by (cases e') simp
    qed
    then have seek_rest: "Seek p rest = rest"
      unfolding Seek_def by (induction rest) auto
    show ?thesis
    proof (cases "starts_with k p")
      case True
      with False IH seek_rest show ?thesis by (simp add: e scan_def Seek_def)
    next
      case nsw: False
      have "\<forall>e' \<in> set rest. \<not> (case e' of (k', v') \<Rightarrow> starts_with k' p)"
      proof
        fix e' assume "e' \<in> set rest"
        then have "key_less k (fst e')" using above by simp
        with False nsw have "\<not> starts_with (fst e') p" using past_prefix by blast
        then show "\<not> (case e' of (k', v') \<Rightarrow> starts_with k' p)" by (cases e') simp
      qed
      then have "filter (\<lambda>(k, v). starts_with k p) rest = []"
        by (simp add: filter_empty_conv)
      with False nsw show ?thesis by (simp add: e scan_def Seek_def)
    qed
  qed
qed



text \<open>
  What the two loading loops compute when they do not fail. The store that holds only the
  drop-marker of prefix 5 is recovered into the dropped-prefix set \<open>{5}\<close> with one
  compaction request (\<open>recover_marker\<close> below).
\<close>

lemma loadIdentMap_entries:
  "loadIdentMap es (m, mx) = Inr (m', mx') \<Longrightarrow> (k, v) \<in> set es \<Longrightarrow>
   \<exists>config. v = BsonData config \<and> isNumber (getField config ''prefix'')
            \<and> numberInt (getField config ''prefix'') \<le> mx'"
  and loadIdentMap_mono: "loadIdentMap es (m, mx) = Inr (m', mx') \<Longrightarrow> mx \<le> mx'"
proof (induction es arbitrary: m mx)
  case Nil
  { case 1 then show ?case by simp }
  { case 2 then show ?case by simp }
next
  case (Cons e es)
  obtain k0 v0 where e: "e = (k0, v0)" by (cases e)
  { case 1
    from 1(1) obtain c0 where v0: "v0 = BsonData c0"
      by (cases v0) (simp_all add: e)
    from 1(1) have num: "isNumber (getField c0 ''prefix'')"
      by (simp add: e v0 Let_def split: if_splits)
    from 1(1) have rest: "loadIdentMap es (m(drop (length kMetadataPrefix) k0 \<mapsto> c0),
        max mx (numberInt (getField c0 ''prefix''))) = Inr (m', mx')"
      by (simp add: e v0 Let_def split: if_splits)
    show ?case
    proof (cases "(k, v) = (k0, v0)")
      case True
      have "max mx (numberInt (getField c0 ''prefix'')) \<le> mx'"
        using Cons.IH(2) [OF rest] .
      with True v0 num show ?thesis by simp
    next
      case False
      with 1(2) have "(k, v) \<in> set es" by (auto simp add: e)
      then show ?thesis using Cons.IH(1) [OF rest] by simp
    qed }
  { case 2
    from 2 obtain c0 where v0: "v0 = BsonData c0"
      by (cases v0) (simp_all add: e)
    from 2 have rest: "loadIdentMap es (m(drop (length kMetadataPrefix) k0 \<mapsto> c0),
        max mx (numberInt (getField c0 ''prefix''))) = Inr (m', mx')"
      by (simp add: e v0 Let_def split: if_splits)
    have "max mx (numberInt (getField c0 ''prefix'')) \<le> mx'"
      using Cons.IH(2) [OF rest] .
    then show ?case by simp }
qed


lemma loadIdentMap_attained:
  "loadIdentMap es (m, mx) = Inr (m', mx') \<Longrightarrow>
   mx' = mx \<or> (\<exists>k config. (k, BsonData config) \<in> set es
                  \<and> mx' = numberInt (getField config ''prefix''))"
proof (induction es arbitrary: m mx)
  case Nil
  then show ?case by simp
next
  case (Cons e es)
  obtain k0 v0 where e: "e = (k0, v0)" by (cases e)
  from Cons.prems obtain c0 where v0: "v0 = BsonData c0"
    by (cases v0) (simp_all add: e)
  from Cons.prems have rest: "loadIdentMap es (m(drop (length kMetadataPrefix) k0 \<mapsto> c0),
      max mx (numberInt (getField c0 ''prefix''))) = Inr (m', mx')"
    by (simp add: e v0 Let_def split: if_splits)
  from Cons.IH [OF rest] show ?case
    by (auto simp add: e v0 max_def split: if_splits)
qed

lemma loadIdentMap_map:
  "loadIdentMap es (m, mx) = Inr (m', mx') \<Longrightarrow>
   distinct (map fst es) \<Longrightarrow> \<forall>(k, v) \<in> set es. starts_with k kMetadataPrefix \<Longrightarrow>
   (\<forall>k config. (k, BsonData config) \<in> set es \<longrightarrow>
        m' (drop (length kMetadataPrefix) k) = Some config)
   \<and> (\<forall>ident. (\<forall>v. (kMetadataPrefix @ ident, v) \<notin> set es) \<longrightarrow> m' ident = m ident)"
proof (induction es arbitrary: m mx)
  case Nil
  then show ?case by simp
next
  case (Cons e es)
  obtain k0 v0 where e: "e = (k0, v0)" by (cases e)
  from Cons.prems(1) obtain c0 where v0: "v0 = BsonData c0"
    by (cases v0) (simp_all add: e)
  let ?m = "m(drop (length kMetadataPrefix) k0 \<mapsto> c0)"
  from Cons.prems(1) have rest: "loadIdentMap es (?m,
      max mx (numberInt (getField c0 ''prefix''))) = Inr (m', mx')"
    by (simp add: e v0 Let_def split: if_splits)
  have d: "distinct (map fst es)" and k0_new: "k0 \<notin> fst ` set es"
    using Cons.prems(2) by (simp_all add: e)
  have sw: "\<forall>(k, v) \<in> set es. starts_with k kMetadataPrefix"
    and sw0: "starts_with k0 kMetadataPrefix"
    using Cons.prems(3) by (simp_all add: e)
  have k0_eq: "kMetadataPrefix @ drop (length kMetadataPrefix) k0 = k0"
    using sw0 by (metis append_take_drop_id starts_with_def)
  note IH = Cons.IH [OF rest d sw]
  have untouched: "\<forall>v. (kMetadataPrefix @ drop (length kMetadataPrefix) k0, v) \<notin> set es"
    using k0_new k0_eq by (metis fst_conv image_eqI)
  show ?case
  proof (intro conjI allI impI)
    fix k config
    assume "(k, BsonData config) \<in> set (e # es)"
    then consider "k = k0" "config = c0" | "(k, BsonData config) \<in> set es"
      by (auto simp add: e v0)
    then show "m' (drop (length kMetadataPrefix) k) = Some config"
    proof cases
      case 1
      have "m' (drop (length kMetadataPrefix) k0) = ?m (drop (length kMetadataPrefix) k0)"
        using IH untouched by blast
      with 1 show ?thesis by simp
    next
      case 2
      with IH show ?thesis by blast
    qed
  next
    fix ident
    assume a: "\<forall>v. (kMetadataPrefix @ ident, v) \<notin> set (e # es)"
    then have "kMetadataPrefix @ ident \<noteq> k0" by (auto simp add: e)
    then have "ident \<noteq> drop (length kMetadataPrefix) k0" using k0_eq by auto
    moreover from a have "\<forall>v. (kMetadataPrefix @ ident, v) \<notin> set es" by simp
    ultimately show "m' ident = m ident" using IH by simp
  qed
qed

lemma loadDroppedPrefixes_result:
  "loadDroppedPrefixes es (dp, reqs) = Inr (dp', reqs') \<Longrightarrow>
   reqs' = reqs @ map (\<lambda>(k, v). drop (length kDroppedPrefix) k) es
   \<and> dp' = dp \<union> {p. \<exists>(k, v) \<in> set es. extractPrefix (drop (length kDroppedPrefix) k) = Some p}
   \<and> (\<forall>(k, v) \<in> set es. extractPrefix (drop (length kDroppedPrefix) k) \<noteq> None)"
proof (induction es arbitrary: dp reqs)
  case Nil
  then show ?case by simp
next
  case (Cons e es)
  obtain k0 v0 where e: "e = (k0, v0)" by (cases e)
  from Cons.prems obtain p0 where p0: "extractPrefix (drop (length kDroppedPrefix) k0) = Some p0"
    by (cases "extractPrefix (drop (length kDroppedPrefix) k0)") (simp_all add: e Let_def)
  from Cons.prems have rest: "loadDroppedPrefixes es (insert p0 dp,
      reqs @ [drop (length kDroppedPrefix) k0]) = Inr (dp', reqs')"
    by (simp add: e p0 Let_def)
  from Cons.IH [OF rest] show ?case
    by (auto simp add: e p0)
qed


lemma sorted_keys_distinct: "sorted_wrt key_less ks \<Longrightarrow> distinct ks"
  by (induction ks) (auto simp add: key_less_irrefl)

lemma recover_Inr:
  assumes "RocksEngine_recover d D = Inr E"
  obtains mx0 m mx1 dp reqs where
    "findMaxPrefix (kv D) 0 = Inr mx0"
    "loadIdentMap (scan kMetadataPrefix (kv D)) (Map.empty, mx0) = Inr (m, mx1)"
    "loadDroppedPrefixes (scan kDroppedPrefix (kv D)) ({}, []) = Inr (dp, reqs)"
    "E = \<lparr>durable = d, identMap = m, maxPrefix = mx1 + 1, droppedPrefixes = dp,
          oplogIdent = [], rdb = D, compactionRequests = reqs, journalFlusher = d\<rparr>"
  using assms unfolding RocksEngine_recover_def
  by (auto split: sum.splits prod.splits)

lemma recover_coll1: "RocksEngine_recover True coll1_store = Inr coll1_engine"
  by (simp add: RocksEngine_recover_def coll1_store_def coll1_engine_def findMaxPrefix_def
      scan_def Seek_def starts_with_def kMetadataPrefix_def kDroppedPrefix_def bytes_of_def
      getField_def eoo_def isNumber_def numberInt_def bigToNative_def)

lemma recover_marker:
  "RocksEngine_recover False marker_store =
     Inr \<lparr>durable = False, identMap = Map.empty, maxPrefix = 1, droppedPrefixes = {5},
          oplogIdent = [], rdb = marker_store, compactionRequests = [encodePrefix 5],
          journalFlusher = False\<rparr>"
  by (simp add: RocksEngine_recover_def marker_store_def findMaxPrefix_def
      scan_def Seek_def starts_with_def kMetadataPrefix_def kDroppedPrefix_def bytes_of_def
      encodePrefix_def bigToNative_def)

lemma recover_fresh: "RocksEngine_recover False fresh_store = Inr fresh_engine"
  by (simp add: RocksEngine_recover_def fresh_store_def fresh_engine_def findMaxPrefix_def
      scan_def Seek_def)

text \<open>
  Claim C3, as stated, fails: recovery of an empty store does not leave the max-prefix
  counter at its default 0. The seek for the last key leaves it at 0, and the increment
  after the metadata scan is unconditional, so the recovered counter is 1.
\<close>

theorem recover_empty_counterexample:
  "kv fresh_store = []
   \<and> map_sum id maxPrefix (RocksEngine_recover False fresh_store) = Inr 1
   \<and> map_sum id maxPrefix (RocksEngine_recover False fresh_store) \<noteq> Inr 0"
  by (simp add: RocksEngine_recover_def fresh_store_def findMaxPrefix_def scan_def Seek_def)

text \<open>
  When recovery completes: what it has built, on a store sorted by key. And when it
  completes: on every store whose last key, metadata entries and drop-markers are well
  formed.
\<close>

lemma recover_state:
  assumes sorted: "sorted_wrt key_less (map fst (kv D))"
      and rec: "RocksEngine_recover d D = Inr E"
  shows "(kv D = [] \<longrightarrow> maxPrefix E = 1)
    \<and> (kv D \<noteq> [] \<longrightarrow>
         (\<exists>lp. extractPrefix (fst (last (kv D))) = Some lp \<and> lp \<le> maxPrefix E - 1)
         \<and> (extractPrefix (fst (last (kv D))) = Some (maxPrefix E - 1)
            \<or> (\<exists>k config. (k, BsonData config) \<in> set (kv D) \<and> starts_with k kMetadataPrefix
                  \<and> numberInt (getField config ''prefix'') = maxPrefix E - 1)))
    \<and> (\<forall>k v. (k, v) \<in> set (kv D) \<and> starts_with k kMetadataPrefix \<longrightarrow>
          (\<exists>config. v = BsonData config \<and> isNumber (getField config ''prefix'')
             \<and> identMap E (drop (length kMetadataPrefix) k) = Some config
             \<and> numberInt (getField config ''prefix'') \<le> maxPrefix E - 1))
    \<and> (\<forall>ident. (\<forall>v. (kMetadataPrefix @ ident, v) \<notin> set (kv D)) \<longrightarrow> identMap E ident = None)
    \<and> droppedPrefixes E =
         {p. \<exists>k v. (k, v) \<in> set (kv D) \<and> starts_with k kDroppedPrefix
               \<and> extractPrefix (drop (length kDroppedPrefix) k) = Some p}
    \<and> compactionRequests E =
         map (\<lambda>(k, v). drop (length kDroppedPrefix) k)
           (filter (\<lambda>(k, v). starts_with k kDroppedPrefix) (kv D))
    \<and> rdb E = D \<and> journalFlusher E = d"
proof -
  from rec obtain mx0 m mx1 dp reqs where
    fm: "findMaxPrefix (kv D) 0 = Inr mx0"
    and li: "loadIdentMap (scan kMetadataPrefix (kv D)) (Map.empty, mx0) = Inr (m, mx1)"
    and ld: "loadDroppedPrefixes (scan kDroppedPrefix (kv D)) ({}, []) = Inr (dp, reqs)"
    and E: "E = \<lparr>durable = d, identMap = m, maxPrefix = mx1 + 1, droppedPrefixes = dp,
          oplogIdent = [], rdb = D, compactionRequests = reqs, journalFlusher = d\<rparr>"
    by (rule recover_Inr)
  let ?meta = "filter (\<lambda>(k, v). starts_with k kMetadataPrefix) (kv D)"
  let ?drop = "filter (\<lambda>(k, v). starts_with k kDroppedPrefix) (kv D)"
  have sm: "scan kMetadataPrefix (kv D) = ?meta" and sd: "scan kDroppedPrefix (kv D) = ?drop"
    using sorted by (rule scan_eq_filter)+
  have mp: "maxPrefix E - 1 = mx1" by (simp add: E)
  have dist: "distinct (map fst ?meta)"
    using sorted_keys_distinct [OF sorted] by (simp add: distinct_map_filter)
  have allsw: "\<forall>(k, v) \<in> set ?meta. starts_with k kMetadataPrefix" by auto
  note li' = li [unfolded sm]
  note ld' = ld [unfolded sd]
  have mono: "mx0 \<le> mx1" using loadIdentMap_mono [OF li'] .
  have c1: "kv D = [] \<longrightarrow> maxPrefix E = 1"
  proof
    assume "kv D = []"
    with fm li' show "maxPrefix E = 1" by (simp add: findMaxPrefix_def E)
  qed
  have c2: "kv D \<noteq> [] \<longrightarrow>
         (\<exists>lp. extractPrefix (fst (last (kv D))) = Some lp \<and> lp \<le> maxPrefix E - 1)
         \<and> (extractPrefix (fst (last (kv D))) = Some (maxPrefix E - 1)
            \<or> (\<exists>k config. (k, BsonData config) \<in> set (kv D) \<and> starts_with k kMetadataPrefix
                  \<and> numberInt (getField config ''prefix'') = maxPrefix E - 1))"
  proof
    assume ne: "kv D \<noteq> []"
    with fm have lp: "extractPrefix (fst (last (kv D))) = Some mx0"
      by (simp add: findMaxPrefix_def split: option.splits)
    from loadIdentMap_attained [OF li']
    have "mx1 = mx0 \<or> (\<exists>k config. (k, BsonData config) \<in> set (kv D)
             \<and> starts_with k kMetadataPrefix \<and> numberInt (getField config ''prefix'') = mx1)"
      by auto
    with lp mono show "(\<exists>lp. extractPrefix (fst (last (kv D))) = Some lp \<and> lp \<le> maxPrefix E - 1)
         \<and> (extractPrefix (fst (last (kv D))) = Some (maxPrefix E - 1)
            \<or> (\<exists>k config. (k, BsonData config) \<in> set (kv D) \<and> starts_with k kMetadataPrefix
                  \<and> numberInt (getField config ''prefix'') = maxPrefix E - 1))"
      unfolding mp by auto
  qed
  have c3: "\<forall>k v. (k, v) \<in> set (kv D) \<and> starts_with k kMetadataPrefix \<longrightarrow>
          (\<exists>config. v = BsonData config \<and> isNumber (getField config ''prefix'')
             \<and> identMap E (drop (length kMetadataPrefix) k) = Some config
             \<and> numberInt (getField config ''prefix'') \<le> maxPrefix E - 1)"
  proof (intro allI impI)
    fix k v
    assume "(k, v) \<in> set (kv D) \<and> starts_with k kMetadataPrefix"
    then have mem: "(k, v) \<in> set ?meta" by simp
    from loadIdentMap_entries [OF li' mem] obtain config where
      v: "v = BsonData config" and num: "isNumber (getField config ''prefix'')"
      and le: "numberInt (getField config ''prefix'') \<le> mx1"
      by blast
    from loadIdentMap_map [OF li' dist allsw] mem v
    have "m (drop (length kMetadataPrefix) k) = Some config" by blast
    with v num le show "\<exists>config. v = BsonData config \<and> isNumber (getField config ''prefix'')
             \<and> identMap E (drop (length kMetadataPrefix) k) = Some config
             \<and> numberInt (getField config ''prefix'') \<le> maxPrefix E - 1"
      unfolding mp by (simp add: E)
  qed
  have c4: "\<forall>ident. (\<forall>v. (kMetadataPrefix @ ident, v) \<notin> set (kv D)) \<longrightarrow> identMap E ident = None"
  proof (intro allI impI)
    fix ident
    assume "\<forall>v. (kMetadataPrefix @ ident, v) \<notin> set (kv D)"
    then have "\<forall>v. (kMetadataPrefix @ ident, v) \<notin> set ?meta" by simp
    with loadIdentMap_map [OF li' dist allsw] have "m ident = Map.empty ident" by blast
    then show "identMap E ident = None" by (simp add: E)
  qed
  from loadDroppedPrefixes_result [OF ld']
  have c5: "droppedPrefixes E =
         {p. \<exists>k v. (k, v) \<in> set (kv D) \<and> starts_with k kDroppedPrefix
               \<and> extractPrefix (drop (length kDroppedPrefix) k) = Some p}"
    and c6: "compactionRequests E =
         map (\<lambda>(k, v). drop (length kDroppedPrefix) k) ?drop"
    by (auto simp add: E)
  have c7: "rdb E = D \<and> journalFlusher E = d" by (simp add: E)
  from c1 c2 c3 c4 c5 c6 c7 show ?thesis by blast
qed

lemma loadIdentMap_completes:
  "\<forall>(k, v) \<in> set es. \<exists>config. v = BsonData config \<and> isNumber (getField config ''prefix'') \<Longrightarrow>
   \<exists>r. loadIdentMap es (m, mx) = Inr r"
proof (induction es arbitrary: m mx)
  case Nil
  show ?case by simp
next
  case (Cons e es)
  obtain k0 v0 where e: "e = (k0, v0)" by (cases e)
  from Cons.prems obtain c0 where v0: "v0 = BsonData c0"
    and num: "isNumber (getField c0 ''prefix'')"
    by (auto simp add: e)
  from num have ne: "\<not> eoo (getField c0 ''prefix'')"
    by (auto simp add: isNumber_def eoo_def)
  from Cons.prems have "\<forall>(k, v) \<in> set es. \<exists>config. v = BsonData config
      \<and> isNumber (getField config ''prefix'')"
    by simp
  from Cons.IH [OF this] show ?case
    by (simp add: e v0 num ne Let_def)
qed

lemma loadDroppedPrefixes_completes:
  "\<forall>(k, v) \<in> set es. 4 \<le> length (drop (length kDroppedPrefix) k) \<Longrightarrow>
   \<exists>r. loadDroppedPrefixes es (dp, reqs) = Inr r"
proof (induction es arbitrary: dp reqs)
  case Nil
  show ?case by simp
next
  case (Cons e es)
  obtain k0 v0 where e: "e = (k0, v0)" by (cases e)
  from Cons.prems have "4 \<le> length (drop (length kDroppedPrefix) k0)" by (simp add: e)
  then obtain p0 where p0: "extractPrefix (drop (length kDroppedPrefix) k0) = Some p0"
    using extractPrefix_Some_nth by blast
  from Cons.prems have "\<forall>(k, v) \<in> set es. 4 \<le> length (drop (length kDroppedPrefix) k)"
    by simp
  from Cons.IH [OF this] show ?case
    by (simp add: e p0 Let_def)
qed

lemma set_scan: "set (scan p kvl) \<subseteq> {(k, v). (k, v) \<in> set kvl \<and> starts_with k p}"
proof
  fix e assume a: "e \<in> set (scan p kvl)"
  then have "e \<in> set (Seek p kvl)" unfolding scan_def by (rule set_takeWhileD [THEN conjunct1])
  then have "e \<in> set kvl" unfolding Seek_def by (rule set_mp [OF set_dropWhileD [THEN subsetI], rotated]) 
  moreover from a have "case e of (k, v) \<Rightarrow> starts_with k p"
    unfolding scan_def by (rule set_takeWhileD [THEN conjunct2])
  ultimately show "e \<in> {(k, v). (k, v) \<in> set kvl \<and> starts_with k p}" by auto
qed

lemma recover_completes:
  assumes last: "kv D = [] \<or> 4 \<le> length (fst (last (kv D)))"
    and meta: "\<forall>k v. (k, v) \<in> set (kv D) \<and> starts_with k kMetadataPrefix \<longrightarrow>
                 (\<exists>config. v = BsonData config \<and> isNumber (getField config ''prefix''))"
    and marks: "\<forall>k v. (k, v) \<in> set (kv D) \<and> starts_with k kDroppedPrefix \<longrightarrow>
                 4 \<le> length (drop (length kDroppedPrefix) k)"
  shows "\<exists>E. RocksEngine_recover d D = Inr E"
proof -
  have "\<exists>mx0. findMaxPrefix (kv D) 0 = Inr mx0"
  proof (cases "kv D = []")
    case True
    then show ?thesis by (simp add: findMaxPrefix_def)
  next
    case False
    with last have "4 \<le> length (fst (last (kv D)))" by simp
    from extractPrefix_Some_nth [OF this] False show ?thesis
      by (simp add: findMaxPrefix_def)
  qed
  then obtain mx0 where fm: "findMaxPrefix (kv D) 0 = Inr mx0" by blast
  have "\<forall>(k, v) \<in> set (scan kMetadataPrefix (kv D)).
          \<exists>config. v = BsonData config \<and> isNumber (getField config ''prefix'')"
    using meta set_scan [of kMetadataPrefix "kv D"] by blast
  from loadIdentMap_completes [OF this] obtain m mx1 where
    li: "loadIdentMap (scan kMetadataPrefix (kv D)) (Map.empty, mx0) = Inr (m, mx1)"
    by (metis surj_pair)
  have "\<forall>(k, v) \<in> set (scan kDroppedPrefix (kv D)). 4 \<le> length (drop (length kDroppedPrefix) k)"
    using marks set_scan [of kDroppedPrefix "kv D"] by blast
  from loadDroppedPrefixes_completes [OF this] obtain dp reqs where
    ld: "loadDroppedPrefixes (scan kDroppedPrefix (kv D)) ({}, []) = Inr (dp, reqs)"
    by (metis surj_pair)
  show ?thesis by (simp add: RocksEngine_recover_def fm li ld)
qed


text \<open>
  Claim C3 (amended): startup recovery reads only the store's contents. On a key-sorted
  store it completes whenever the last key has at least 4 bytes, every entry in the
  metadata namespace holds a config record with a numeric prefix, and every drop-marker
  names a prefix of 4 bytes. Whenever it completes it has rebuilt the engine state: for an
  empty store the counter ends at 1, the default 0 advanced by the extra slot; for a store
  with keys, the prefix of the last key and the prefix of every metadata entry are at most
  the counter before its final advance by one, and that value is one of these prefixes;
  every entry in the metadata namespace is registered in the ident map under its ident, and
  no other ident is registered; the dropped-prefix set is the set of the prefixes of the
  drop-markers found, and one compaction is requested for each marker, in key order.
\<close>

theorem recover_rebuilds_state:
  assumes sorted: "sorted_wrt key_less (map fst (kv D))"
  shows "((kv D = [] \<or> 4 \<le> length (fst (last (kv D))))
          \<and> (\<forall>k v. (k, v) \<in> set (kv D) \<and> starts_with k kMetadataPrefix \<longrightarrow>
                (\<exists>config. v = BsonData config \<and> isNumber (getField config ''prefix'')))
          \<and> (\<forall>k v. (k, v) \<in> set (kv D) \<and> starts_with k kDroppedPrefix \<longrightarrow>
                4 \<le> length (drop (length kDroppedPrefix) k))
          \<longrightarrow> (\<exists>E. RocksEngine_recover d D = Inr E))
    \<and> (\<forall>E. RocksEngine_recover d D = Inr E \<longrightarrow>
          (kv D = [] \<longrightarrow> maxPrefix E = 1)
          \<and> (kv D \<noteq> [] \<longrightarrow>
               (\<exists>lp. extractPrefix (fst (last (kv D))) = Some lp \<and> lp \<le> maxPrefix E - 1)
               \<and> (extractPrefix (fst (last (kv D))) = Some (maxPrefix E - 1)
                  \<or> (\<exists>k config. (k, BsonData config) \<in> set (kv D)
                        \<and> starts_with k kMetadataPrefix
                        \<and> numberInt (getField config ''prefix'') = maxPrefix E - 1)))
          \<and> (\<forall>k v. (k, v) \<in> set (kv D) \<and> starts_with k kMetadataPrefix \<longrightarrow>
                (\<exists>config. v = BsonData config \<and> isNumber (getField config ''prefix'')
                   \<and> identMap E (drop (length kMetadataPrefix) k) = Some config
                   \<and> numberInt (getField config ''prefix'') \<le> maxPrefix E - 1))
          \<and> (\<forall>ident. (\<forall>v. (kMetadataPrefix @ ident, v) \<notin> set (kv D)) \<longrightarrow>
                identMap E ident = None)
          \<and> droppedPrefixes E =
               {p. \<exists>k v. (k, v) \<in> set (kv D) \<and> starts_with k kDroppedPrefix
                     \<and> extractPrefix (drop (length kDroppedPrefix) k) = Some p}
          \<and> compactionRequests E =
               map (\<lambda>(k, v). drop (length kDroppedPrefix) k)
                 (filter (\<lambda>(k, v). starts_with k kDroppedPrefix) (kv D))
          \<and> rdb E = D \<and> journalFlusher E = d)"
proof (rule conjI)
  show "(kv D = [] \<or> 4 \<le> length (fst (last (kv D))))
          \<and> (\<forall>k v. (k, v) \<in> set (kv D) \<and> starts_with k kMetadataPrefix \<longrightarrow>
                (\<exists>config. v = BsonData config \<and> isNumber (getField config ''prefix'')))
          \<and> (\<forall>k v. (k, v) \<in> set (kv D) \<and> starts_with k kDroppedPrefix \<longrightarrow>
                4 \<le> length (drop (length kDroppedPrefix) k))
          \<longrightarrow> (\<exists>E. RocksEngine_recover d D = Inr E)"
    using recover_completes [of D d] by blast
next
  show "\<forall>E. RocksEngine_recover d D = Inr E \<longrightarrow>
          (kv D = [] \<longrightarrow> maxPrefix E = 1)
          \<and> (kv D \<noteq> [] \<longrightarrow>
               (\<exists>lp. extractPrefix (fst (last (kv D))) = Some lp \<and> lp \<le> maxPrefix E - 1)
               \<and> (extractPrefix (fst (last (kv D))) = Some (maxPrefix E - 1)
                  \<or> (\<exists>k config. (k, BsonData config) \<in> set (kv D)
                        \<and> starts_with k kMetadataPrefix
                        \<and> numberInt (getField config ''prefix'') = maxPrefix E - 1)))
          \<and> (\<forall>k v. (k, v) \<in> set (kv D) \<and> starts_with k kMetadataPrefix \<longrightarrow>
                (\<exists>config. v = BsonData config \<and> isNumber (getField config ''prefix'')
                   \<and> identMap E (drop (length kMetadataPrefix) k) = Some config
                   \<and> numberInt (getField config ''prefix'') \<le> maxPrefix E - 1))
          \<and> (\<forall>ident. (\<forall>v. (kMetadataPrefix @ ident, v) \<notin> set (kv D)) \<longrightarrow>
                identMap E ident = None)
          \<and> droppedPrefixes E =
               {p. \<exists>k v. (k, v) \<in> set (kv D) \<and> starts_with k kDroppedPrefix
                     \<and> extractPrefix (drop (length kDroppedPrefix) k) = Some p}
          \<and> compactionRequests E =
               map (\<lambda>(k, v). drop (length kDroppedPrefix) k)
                 (filter (\<lambda>(k, v). starts_with k kDroppedPrefix) (kv D))
          \<and> rdb E = D \<and> journalFlusher E = d"
    using recover_state [OF sorted, of d] by blast
qed

text \<open>
  The round trip of claim C3: from the store that holds only the metadata record of
  \<^verbatim>\<open>coll1\<close> with prefix 5, recovery completes and builds the registry with the one
  entry for \<^verbatim>\<open>coll1\<close>, a counter of at least 6, an empty dropped-prefix set and no
  compaction request.
\<close>

theorem recover_rebuilds_state_witness:
  "sorted_wrt key_less (map fst (kv coll1_store))
   \<and> 4 \<le> length (fst (last (kv coll1_store)))
   \<and> (\<exists>E. RocksEngine_recover True coll1_store = Inr E)
   \<and> RocksEngine_recover True coll1_store = Inr coll1_engine
   \<and> identMap coll1_engine = [bytes_of ''coll1'' \<mapsto> [(''prefix'', Number 5)]]
   \<and> 6 \<le> maxPrefix coll1_engine
   \<and> droppedPrefixes coll1_engine = {}
   \<and> compactionRequests coll1_engine = []
   \<and> journalFlusher coll1_engine = True"
proof -
  have h1: "sorted_wrt key_less (map fst (kv coll1_store))"
    by (simp add: coll1_store_def)
  have w1: "4 \<le> length (fst (last (kv coll1_store)))"
    by (simp add: coll1_store_def kMetadataPrefix_def bytes_of_def)
  have w2: "\<forall>k v. (k, v) \<in> set (kv coll1_store) \<and> starts_with k kMetadataPrefix \<longrightarrow>
              (\<exists>config. v = BsonData config \<and> isNumber (getField config ''prefix''))"
    by (simp add: coll1_store_def isNumber_def getField_def)
  have f: "filter (\<lambda>(k, v). starts_with k kDroppedPrefix) (kv coll1_store) = []"
    by (simp add: coll1_store_def starts_with_def kMetadataPrefix_def kDroppedPrefix_def
        bytes_of_def)
  then have w3: "\<forall>k v. (k, v) \<in> set (kv coll1_store) \<and> starts_with k kDroppedPrefix \<longrightarrow>
              4 \<le> length (drop (length kDroppedPrefix) k)"
    by (auto simp add: filter_empty_conv)
  from f have g: "{p. \<exists>k v. (k, v) \<in> set (kv coll1_store) \<and> starts_with k kDroppedPrefix
               \<and> extractPrefix (drop (length kDroppedPrefix) k) = Some p} = {}"
    by (auto simp add: filter_empty_conv)
  have e: "identMap coll1_engine = [bytes_of ''coll1'' \<mapsto> [(''prefix'', Number 5)]]"
      "6 \<le> maxPrefix coll1_engine"
    by (simp_all add: coll1_engine_def)
  from recover_rebuilds_state [OF h1, THEN conjunct1, of True] w1 w2 w3
  have ex: "\<exists>E. RocksEngine_recover True coll1_store = Inr E" by blast
  note t = recover_rebuilds_state [OF h1, THEN conjunct2, THEN spec, THEN mp, OF recover_coll1]
  note d = t [THEN conjunct2, THEN conjunct2, THEN conjunct2, THEN conjunct2, THEN conjunct1]
  note r = t [THEN conjunct2, THEN conjunct2, THEN conjunct2, THEN conjunct2, THEN conjunct2,
      THEN conjunct1]
  note j = t [THEN conjunct2, THEN conjunct2, THEN conjunct2, THEN conjunct2, THEN conjunct2,
      THEN conjunct2, THEN conjunct2]
  have "droppedPrefixes coll1_engine = {}" using d unfolding g .
  moreover have "compactionRequests coll1_engine = []" using r unfolding f by simp
  ultimately show ?thesis
    using h1 w1 ex recover_coll1 e j by simp
qed

section \<open>The counter under creates\<close>
















section \<open>Opening the store\<close>

text \<open>
  One call of \<^verbatim>\<open>openDB\<close>, with the pairs taken apart; then what one call does on a store
  that exists, when the oplog column family is asked for: in read-write mode and in
  read-only mode.
\<close>

lemma kOplogCF_not_default: "kOplogCF \<noteq> kDefaultColumnFamilyName"
  by (simp add: kOplogCF_def kDefaultColumnFamilyName_def bytes_of_def)

lemma openDB_Suc:
  "openDB (Suc n) nd us ro ds D =
     (let r1 = (if ro then DB_OpenForReadOnly ds D else DB_Open ds D)
      in if ok (fst r1)
         then Some (Inr (fst r1, if ro then snd r1
                                 else snd (db_Put ReopenTagKey (RawData []) (snd r1))))
         else if \<not> us then Some (Inl QuickExit)
         else
           let r2 = (if ro then DB_OpenForReadOnly [kDefaultColumnFamilyName] (snd r1)
                     else DB_Open [kDefaultColumnFamilyName] (snd r1))
           in if \<not> ok (fst r2) then Some (Inl QuickExit)
              else if ok (db_Get ReopenTagKey (snd r2)) then Some (Inl QuickExit)
              else
                let r4 = db_CreateColumnFamily kOplogCF (snd r2)
                in if \<not> ok (fst r4) \<and> \<not> nd then Some (Inl AssertAbort)
                   else openDB n nd us ro ds (snd r4))"
  by (simp add: Let_def split: prod.splits)


lemma openDB_mono: "openDB n nd us ro ds D = Some r \<Longrightarrow> openDB (n + k) nd us ro ds D = Some r"
proof (induction n arbitrary: D)
  case 0
  then show ?case by simp
next
  case (Suc n)
  let ?r1 = "if ro then DB_OpenForReadOnly ds D else DB_Open ds D"
  let ?r2 = "if ro then DB_OpenForReadOnly [kDefaultColumnFamilyName] (snd ?r1)
             else DB_Open [kDefaultColumnFamilyName] (snd ?r1)"
  let ?r4 = "db_CreateColumnFamily kOplogCF (snd ?r2)"
  show ?case
  proof (cases "\<not> ok (fst ?r1) \<and> us \<and> ok (fst ?r2) \<and> \<not> ok (db_Get ReopenTagKey (snd ?r2))
               \<and> (ok (fst ?r4) \<or> nd)")
    case True
    have a: "openDB (Suc n) nd us ro ds D = openDB n nd us ro ds (snd ?r4)"
      using True unfolding openDB_Suc by (cases ro) (auto simp add: Let_def)
    have b: "openDB (Suc (n + k)) nd us ro ds D = openDB (n + k) nd us ro ds (snd ?r4)"
      using True unfolding openDB_Suc by (cases ro) (auto simp add: Let_def)
    from Suc.prems have "openDB n nd us ro ds (snd ?r4) = Some r" by (simp only: a)
    then have "openDB (n + k) nd us ro ds (snd ?r4) = Some r" by (rule Suc.IH)
    then show ?thesis by (simp only: b add_Suc)
  next
    case False
    have "openDB (Suc (n + k)) nd us ro ds D = openDB (Suc n) nd us ro ds D"
      using False unfolding openDB_Suc by (cases ro) (auto simp add: Let_def)
    with Suc.prems show ?thesis by simp
  qed
qed




lemma openDB_both_rw:
  "created D \<Longrightarrow> set (columnFamilies D) = {kDefaultColumnFamilyName, kOplogCF} \<Longrightarrow>
   openDB (Suc n) nd True False (cfDescriptors True) D
     = Some (Inr (RocksOK, snd (db_Put ReopenTagKey (RawData []) D)))"
  unfolding openDB_Suc by (simp add: cfDescriptors_def DB_Open_def ok_def Let_def)

lemma openDB_both_ro:
  "created D \<Longrightarrow> {kDefaultColumnFamilyName, kOplogCF} \<subseteq> set (columnFamilies D) \<Longrightarrow>
   openDB (Suc n) nd True True (cfDescriptors True) D = Some (Inr (RocksOK, D))"
  unfolding openDB_Suc by (simp add: cfDescriptors_def DB_OpenForReadOnly_def ok_def Let_def)


lemma DB_Open_created:
  "created D \<Longrightarrow>
   DB_Open ds D = (if set ds = set (columnFamilies D) then RocksOK
                   else RocksNotOK kInvalidArgument, D)"
  by (simp add: DB_Open_def)



lemma db_CreateColumnFamily_absent:
  "name \<notin> set (columnFamilies D) \<Longrightarrow>
   db_CreateColumnFamily name D =
     (next_answer D,
      D\<lparr>columnFamilies := (if next_answer D = RocksOK then columnFamilies D @ [name]
                            else columnFamilies D),
        answers := tl (answers D)\<rparr>)"
  by (simp add: db_CreateColumnFamily_def Let_def ok_def)

lemma openDB_round_rw:
  assumes c: "created D"
  shows "openDB (Suc n) nd True False (cfDescriptors True) D =
     (if set (columnFamilies D) = {kDefaultColumnFamilyName, kOplogCF}
      then Some (Inr (RocksOK, snd (db_Put ReopenTagKey (RawData []) D)))
      else if set (columnFamilies D) \<noteq> {kDefaultColumnFamilyName} then Some (Inl QuickExit)
      else if db_Get ReopenTagKey D = RocksOK then Some (Inl QuickExit)
      else if next_answer D \<noteq> RocksOK \<and> \<not> nd then Some (Inl AssertAbort)
      else openDB n nd True False (cfDescriptors True)
             (D\<lparr>columnFamilies := (if next_answer D = RocksOK
                                     then columnFamilies D @ [kOplogCF]
                                     else columnFamilies D),
                 answers := tl (answers D)\<rparr>))"
proof -
  have ds: "set (cfDescriptors True) = {kDefaultColumnFamilyName, kOplogCF}"
    by (simp add: cfDescriptors_def)
  have d1: "set [kDefaultColumnFamilyName] = {kDefaultColumnFamilyName}" by simp
  consider (both) "set (columnFamilies D) = {kDefaultColumnFamilyName, kOplogCF}"
    | (other) "set (columnFamilies D) \<noteq> {kDefaultColumnFamilyName, kOplogCF}"
        "set (columnFamilies D) \<noteq> {kDefaultColumnFamilyName}"
    | (single) "set (columnFamilies D) = {kDefaultColumnFamilyName}"
    by blast
  then show ?thesis
  proof cases
    case both
    then show ?thesis
      unfolding openDB_Suc
      by (simp add: DB_Open_created [OF c] ds ok_def)
  next
    case other
    then have "{kDefaultColumnFamilyName, kOplogCF} \<noteq> set (columnFamilies D)"
      "{kDefaultColumnFamilyName} \<noteq> set (columnFamilies D)" by auto
    with other show ?thesis
      unfolding openDB_Suc
      by (simp add: DB_Open_created [OF c] ds ok_def)
  next
    case single
    then have ne: "{kDefaultColumnFamilyName, kOplogCF} \<noteq> set (columnFamilies D)"
      and ne': "set (columnFamilies D) \<noteq> {kDefaultColumnFamilyName, kOplogCF}"
      and absent: "kOplogCF \<notin> set (columnFamilies D)"
      using kOplogCF_not_default by auto
    show ?thesis
      unfolding openDB_Suc
      using single ne ne'
      by (simp add: DB_Open_created [OF c] ds ok_def db_CreateColumnFamily_absent [OF absent])
  qed
qed














lemma openDB_retries_grow:
  "created D \<Longrightarrow> set (columnFamilies D) = {kDefaultColumnFamilyName} \<Longrightarrow>
   db_Get ReopenTagKey D \<noteq> RocksOK \<Longrightarrow> answers D = replicate n (RocksNotOK c) \<Longrightarrow>
   openDB (Suc n) True True False (cfDescriptors True) D = None"
proof (induction n arbitrary: D)
  case 0
  then have na: "next_answer D = RocksOK" by (simp add: next_answer_def)
  have ne: "set (columnFamilies D) \<noteq> {kDefaultColumnFamilyName, kOplogCF}"
    using 0(2) kOplogCF_not_default by auto
  show ?case using 0 na ne by (subst openDB_round_rw) simp_all
next
  case (Suc n)
  let ?D' = "D\<lparr>answers := tl (answers D)\<rparr>"
  from Suc.prems have na: "next_answer D = RocksNotOK c" by (simp add: next_answer_def)
  have ne: "set (columnFamilies D) \<noteq> {kDefaultColumnFamilyName, kOplogCF}"
    using Suc.prems(2) kOplogCF_not_default by auto
  have "openDB (Suc n) True True False (cfDescriptors True) ?D' = None"
    using Suc.prems by (intro Suc.IH) (simp_all add: db_Get_def)
  then show ?case
    using Suc.prems na ne by (subst openDB_round_rw) simp_all
qed






section \<open>The journal flusher\<close>

text \<open>
  Under every schedule, a call of \<^verbatim>\<open>shutdown\<close> that has stored the flag finds it set ever
  after, and it has returned only if the thread has left its loop. The recorded events are
  whole iterations, each a durability request followed by a sleep, with one more request at
  the end exactly when the thread died in the body.
\<close>

lemma step_keeps_exited: "thread F = Exited \<Longrightarrow> thread (step a F) = Exited"
  by (cases a) (simp_all add: Let_def)

lemma step_keeps_flag: "shuttingDown F \<Longrightarrow> shuttingDown (step a F)"
  by (cases a) (simp_all add: Let_def split: durable_result.splits)

lemma step_shutdown_inv:
  assumes "shutdown_call F \<noteq> NotCalled \<longrightarrow> shuttingDown F"
      and "shutdown_call F = Returned \<longrightarrow> thread F = Exited"
  shows "(shutdown_call (step a F) \<noteq> NotCalled \<longrightarrow> shuttingDown (step a F))
       \<and> (shutdown_call (step a F) = Returned \<longrightarrow> thread (step a F) = Exited)"
  using assms by (cases a) (auto simp add: Let_def split: durable_result.splits)

lemma run_schedule_snoc: "run_schedule (as @ [a]) F = step a (run_schedule as F)"
  by (simp add: run_schedule_def)

lemma run_shutdown_inv:
  "(shutdown_call (run_schedule as newFlusher) \<noteq> NotCalled \<longrightarrow>
      shuttingDown (run_schedule as newFlusher))
   \<and> (shutdown_call (run_schedule as newFlusher) = Returned \<longrightarrow>
      thread (run_schedule as newFlusher) = Exited)"
proof (induction as rule: rev_induct)
  case Nil
  show ?case by (simp add: run_schedule_def newFlusher_def)
next
  case (snoc a as)
  then show ?case unfolding run_schedule_snoc by (intro step_shutdown_inv) simp_all
qed

lemma step_events:
  assumes "events F = concat (map (\<lambda>ms. [WaitUntilDurable, Sleep ms]) mss)
                       @ (case thread F of Died f \<Rightarrow> [WaitUntilDurable] | _ \<Rightarrow> [])"
      and "0 \<notin> set mss"
  shows "\<exists>mss'. events (step a F) = concat (map (\<lambda>ms. [WaitUntilDurable, Sleep ms]) mss')
                       @ (case thread (step a F) of Died f \<Rightarrow> [WaitUntilDurable] | _ \<Rightarrow> [])
               \<and> 0 \<notin> set mss'"
proof (cases a)
  case (LoopBody r ms)
  show ?thesis
  proof (cases "thread F = InBody")
    case False
    with assms LoopBody show ?thesis by auto
  next
    case True
    let ?ms = "if ms = 0 then 100 else ms"
    have ev: "events F = concat (map (\<lambda>ms. [WaitUntilDurable, Sleep ms]) mss)"
      using assms(1) True by simp
    have cont: "concat (map (\<lambda>ms. [WaitUntilDurable, Sleep ms]) mss) @ [WaitUntilDurable, Sleep ?ms]
        = concat (map (\<lambda>ms. [WaitUntilDurable, Sleep ms]) (mss @ [?ms]))"
      by simp
    have nz: "0 \<notin> set (mss @ [?ms])" using assms(2) by simp
    show ?thesis
    proof (cases r)
      case Durable
      have "events (step a F) = concat (map (\<lambda>ms. [WaitUntilDurable, Sleep ms]) (mss @ [?ms]))"
          "thread (step a F) = LoopHead"
        using True by (simp_all add: LoopBody Durable Let_def ev)
      with nz show ?thesis by (intro exI [of _ "mss @ [?ms]"]) simp
    next
      case (ThrowsUserException c)
      show ?thesis
      proof (cases "c = ShutdownInProgress")
        case sip: True
        have "events (step a F) = concat (map (\<lambda>ms. [WaitUntilDurable, Sleep ms]) (mss @ [?ms]))"
            "thread (step a F) = LoopHead"
          using True sip by (simp_all add: LoopBody ThrowsUserException Let_def ev)
        with nz show ?thesis by (intro exI [of _ "mss @ [?ms]"]) simp
      next
        case other: False
        have "events (step a F) = concat (map (\<lambda>ms. [WaitUntilDurable, Sleep ms]) mss) @ [WaitUntilDurable]"
            "thread (step a F) = Died InvariantFailure"
          using True other by (simp_all add: LoopBody ThrowsUserException Let_def ev)
        with assms(2) show ?thesis by (intro exI [of _ mss]) simp
      qed
    next
      case ThrowsOther
      have "events (step a F) = concat (map (\<lambda>ms. [WaitUntilDurable, Sleep ms]) mss) @ [WaitUntilDurable]"
          "thread (step a F) = Died OtherException"
        using True by (simp_all add: LoopBody ThrowsOther Let_def ev)
      with assms(2) show ?thesis by (intro exI [of _ mss]) simp
    qed
  qed
next
  case Go
  with assms show ?thesis by (intro exI [of _ mss]) auto
next
  case LoopTest
  with assms show ?thesis by (intro exI [of _ mss]) auto
next
  case ShutdownStore
  with assms show ?thesis by (intro exI [of _ mss]) auto
next
  case ShutdownWait
  with assms show ?thesis by (intro exI [of _ mss]) auto
qed

lemma run_events:
  "\<exists>mss. events (run_schedule as newFlusher)
           = concat (map (\<lambda>ms. [WaitUntilDurable, Sleep ms]) mss)
             @ (case thread (run_schedule as newFlusher) of
                  Died f \<Rightarrow> [WaitUntilDurable] | _ \<Rightarrow> [])
         \<and> 0 \<notin> set mss"
proof (induction as rule: rev_induct)
  case Nil
  show ?case by (intro exI [of _ "[]"]) (simp add: run_schedule_def newFlusher_def)
next
  case (snoc a as)
  then obtain mss where "events (run_schedule as newFlusher)
           = concat (map (\<lambda>ms. [WaitUntilDurable, Sleep ms]) mss)
             @ (case thread (run_schedule as newFlusher) of
                  Died f \<Rightarrow> [WaitUntilDurable] | _ \<Rightarrow> [])" "0 \<notin> set mss"
    by blast
  then show ?case unfolding run_schedule_snoc by (rule step_events)
qed


lemma recover_flusher: "RocksEngine_recover d D = Inr E \<Longrightarrow> journalFlusher E = d"
  unfolding RocksEngine_recover_def by (auto split: sum.splits prod.splits)

text \<open>
  Claim C8, as stated, fails on the order inside an iteration: the body first requests
  durability and then sleeps. A thread that runs one iteration and is then shut down has
  requested durability before any wait, and its wait is not followed by a request.
\<close>

theorem flusher_order_counterexample:
  "events (run_schedule [Go, LoopTest, LoopBody Durable 0, ShutdownStore, LoopTest, ShutdownWait]
            newFlusher) = [WaitUntilDurable, Sleep 100]
   \<and> events (run_schedule [Go, LoopTest, LoopBody Durable 0, ShutdownStore, LoopTest, ShutdownWait]
            newFlusher) \<noteq> [Sleep 100, WaitUntilDurable]
   \<and> thread (run_schedule [Go, LoopTest, LoopBody Durable 0, ShutdownStore, LoopTest, ShutdownWait]
            newFlusher) = Exited"
  by (simp add: run_schedule_def newFlusher_def)

text \<open>
  Claim C8 (amended): the flusher thread is created and started exactly when durability is
  enabled. Each iteration of its loop first requests that the write-ahead log be made
  durable and then sleeps for the configured commit interval, 100 when the configured value
  is 0. A request that throws a \<^verbatim>\<open>UserException\<close> with code \<^verbatim>\<open>ShutdownInProgress\<close> is
  swallowed and the iteration goes on to its sleep; a \<^verbatim>\<open>UserException\<close> with any other
  code is a fatal invariant failure. The loop leaves at the first test that sees the
  shutdown flag, and \<^verbatim>\<open>shutdown\<close> returns only after the flag is set and the loop has
  been left.
\<close>

theorem journal_flusher_behaviour:
  "(\<forall>E. RocksEngine_recover d D = Inr E \<longrightarrow> journalFlusher E = d)
   \<and> (thread F = InBody \<longrightarrow>
        step (LoopBody Durable ms) F
          = F\<lparr>events := events F @ [WaitUntilDurable, Sleep (if ms = 0 then 100 else ms)],
              thread := LoopHead\<rparr>
        \<and> step (LoopBody (ThrowsUserException ShutdownInProgress) ms) F
          = F\<lparr>events := events F @ [WaitUntilDurable, Sleep (if ms = 0 then 100 else ms)],
              thread := LoopHead\<rparr>
        \<and> (c \<noteq> ShutdownInProgress \<longrightarrow>
             step (LoopBody (ThrowsUserException c) ms) F
               = F\<lparr>events := events F @ [WaitUntilDurable], thread := Died InvariantFailure\<rparr>))
   \<and> (thread F = LoopHead \<longrightarrow>
        step LoopTest F = F\<lparr>thread := (if shuttingDown F then Exited else InBody)\<rparr>)
   \<and> (\<exists>mss. events (run_schedule as newFlusher)
               = concat (map (\<lambda>ms. [WaitUntilDurable, Sleep ms]) mss)
                 @ (case thread (run_schedule as newFlusher) of
                      Died f \<Rightarrow> [WaitUntilDurable] | _ \<Rightarrow> [])
             \<and> 0 \<notin> set mss)
   \<and> (shutdown_call (run_schedule as newFlusher) = Returned \<longrightarrow>
        shuttingDown (run_schedule as newFlusher)
        \<and> thread (run_schedule as newFlusher) = Exited)"
proof -
  have a: "\<forall>E. RocksEngine_recover d D = Inr E \<longrightarrow> journalFlusher E = d"
    using recover_flusher by blast
  have b: "thread F = InBody \<longrightarrow>
        step (LoopBody Durable ms) F
          = F\<lparr>events := events F @ [WaitUntilDurable, Sleep (if ms = 0 then 100 else ms)],
              thread := LoopHead\<rparr>
        \<and> step (LoopBody (ThrowsUserException ShutdownInProgress) ms) F
          = F\<lparr>events := events F @ [WaitUntilDurable, Sleep (if ms = 0 then 100 else ms)],
              thread := LoopHead\<rparr>
        \<and> (c \<noteq> ShutdownInProgress \<longrightarrow>
             step (LoopBody (ThrowsUserException c) ms) F
               = F\<lparr>events := events F @ [WaitUntilDurable], thread := Died InvariantFailure\<rparr>)"
    by (simp add: Let_def)
  have c: "thread F = LoopHead \<longrightarrow>
        step LoopTest F = F\<lparr>thread := (if shuttingDown F then Exited else InBody)\<rparr>"
    by simp
  have e: "shutdown_call (run_schedule as newFlusher) = Returned \<longrightarrow>
        shuttingDown (run_schedule as newFlusher)
        \<and> thread (run_schedule as newFlusher) = Exited"
    using run_shutdown_inv [of as] by auto
  from a b c run_events [of as] e show ?thesis by blast
qed

theorem journal_flusher_behaviour_witness:
  "RocksEngine_recover True coll1_store = Inr coll1_engine
   \<and> journalFlusher coll1_engine = True
   \<and> thread (run_schedule [Go, LoopTest] newFlusher) = InBody
   \<and> step (LoopBody Durable 0) (run_schedule [Go, LoopTest] newFlusher)
       = \<lparr>shuttingDown = False, thread = LoopHead, events = [WaitUntilDurable, Sleep 100],
          shutdown_call = NotCalled\<rparr>
   \<and> InternalError \<noteq> ShutdownInProgress
   \<and> step (LoopBody (ThrowsUserException InternalError) 0) (run_schedule [Go, LoopTest] newFlusher)
       = \<lparr>shuttingDown = False, thread = Died InvariantFailure, events = [WaitUntilDurable],
          shutdown_call = NotCalled\<rparr>
   \<and> thread (run_schedule [Go] newFlusher) = LoopHead
   \<and> step LoopTest (run_schedule [Go] newFlusher)
       = \<lparr>shuttingDown = False, thread = InBody, events = [], shutdown_call = NotCalled\<rparr>
   \<and> shutdown_call (run_schedule
        [Go, LoopTest, LoopBody Durable 0, LoopTest,
         LoopBody (ThrowsUserException ShutdownInProgress) 50,
         ShutdownStore, LoopTest, ShutdownWait] newFlusher) = Returned
   \<and> thread (run_schedule
        [Go, LoopTest, LoopBody Durable 0, LoopTest,
         LoopBody (ThrowsUserException ShutdownInProgress) 50,
         ShutdownStore, LoopTest, ShutdownWait] newFlusher) = Exited"
proof -
  let ?as = "[Go, LoopTest, LoopBody Durable 0, LoopTest,
         LoopBody (ThrowsUserException ShutdownInProgress) 50,
         ShutdownStore, LoopTest, ShutdownWait]"
  have r: "RocksEngine_recover True coll1_store = Inr coll1_engine"
    by (rule recover_coll1)
  have s1: "run_schedule [Go, LoopTest] newFlusher
      = \<lparr>shuttingDown = False, thread = InBody, events = [], shutdown_call = NotCalled\<rparr>"
    and s0: "run_schedule [Go] newFlusher
      = \<lparr>shuttingDown = False, thread = LoopHead, events = [], shutdown_call = NotCalled\<rparr>"
    by (simp_all add: run_schedule_def newFlusher_def)
  have ret: "shutdown_call (run_schedule ?as newFlusher) = Returned"
    by (simp add: run_schedule_def newFlusher_def)
  note t1 = journal_flusher_behaviour [where d = True and D = coll1_store
      and F = "run_schedule [Go, LoopTest] newFlusher" and ms = 0 and c = InternalError
      and as = ?as]
  note t2 = journal_flusher_behaviour [where d = True and D = coll1_store
      and F = "run_schedule [Go] newFlusher" and ms = 0 and c = InternalError and as = ?as]
  from t1 r have 1: "journalFlusher coll1_engine = True" by blast
  from t1 s1 have 2: "step (LoopBody Durable 0) (run_schedule [Go, LoopTest] newFlusher)
       = \<lparr>shuttingDown = False, thread = LoopHead, events = [WaitUntilDurable, Sleep 100],
          shutdown_call = NotCalled\<rparr>"
     and 3: "step (LoopBody (ThrowsUserException InternalError) 0)
          (run_schedule [Go, LoopTest] newFlusher)
       = \<lparr>shuttingDown = False, thread = Died InvariantFailure, events = [WaitUntilDurable],
          shutdown_call = NotCalled\<rparr>"
    by simp_all
  from t2 s0 have 4: "step LoopTest (run_schedule [Go] newFlusher)
       = \<lparr>shuttingDown = False, thread = InBody, events = [], shutdown_call = NotCalled\<rparr>"
    by simp
  from t1 ret have 5: "thread (run_schedule ?as newFlusher) = Exited" by blast
  from r 1 2 3 4 5 ret s0 s1 show ?thesis by simp
qed


end
